theory Spec2Isabelle
  imports Complex_Main "HOL-Library.Multiset" "HOL-Library.Char_ord" "HOL-Library.List_Lexorder"
begin

section \<open>Python errors and results\<close>

text \<open>
  Every exception the modelled functions of \<^verbatim>\<open>utils.py\<close> can raise is a value;
  a function that may raise returns \<open>py_error + 'a\<close>, with \<open>Inl\<close> for the exception.
\<close>

datatype py_error =
    ZeroDivisionError
  | IndexError
  | ValueError
  | AssertionError
  | TypeError
  | AxisError
  | FileNotFoundError

section \<open>Double-precision numbers\<close>

text \<open>
  A Python \<^verbatim>\<open>float\<close> and a numpy \<^verbatim>\<open>float64\<close> are IEEE 754 doubles. A finite double
  is modelled by its exact rational value, and every operation that produces a double
  rounds the exact result to the nearest number with a 53-bit significand, ties going
  to the even significand. The exponent range is not modelled: the doubles of this
  program are quotients of list lengths, their sums, and integers below \<open>2^64\<close>, all far
  from overflow and underflow.
\<close>

text \<open>The number of binary digits of a positive integer.\<close>

function bit_length :: "int \<Rightarrow> int" where
  "bit_length n = (if n \<le> 0 then 0 else 1 + bit_length (n div 2))"
  by pat_completeness auto
termination
  by (relation "measure nat") auto

declare bit_length.simps [simp del]

definition pow2 :: "int \<Rightarrow> rat" where
  "pow2 e = (if 0 \<le> e then 2 ^ nat e else 1 / 2 ^ nat (- e))"

definition round_half_even :: "rat \<Rightarrow> int" where
  "round_half_even x =
     (let f = \<lfloor>x\<rfloor>; r = x - of_int f
      in if r < 1 / 2 then f else if 1 / 2 < r then f + 1 else if even f then f else f + 1)"

text \<open>
  The double nearest to a rational: with \<open>p/q\<close> the magnitude in lowest terms, the
  difference \<open>k\<close> of the bit lengths of \<open>p\<close> and \<open>q\<close> places it between \<open>2^(k-1)\<close> and
  \<open>2^(k+1)\<close>; the exponent \<open>e\<close> is the one that brings the significand into
  \<open>[2^52, 2^53)\<close>, and the significand is rounded to an integer.
\<close>

definition round_float64 :: "rat \<Rightarrow> rat" where
  "round_float64 x =
     (if x = 0 then 0
      else (let a = \<bar>x\<bar>;
                k = bit_length (fst (quotient_of a)) - bit_length (snd (quotient_of a));
                e = (if a / pow2 (k - 53) < 2 ^ 53 then k - 53 else k - 52)
            in sgn x * (of_int (round_half_even (a / pow2 e)) * pow2 e)))"

section \<open>Phoneme error rate: \<^verbatim>\<open>batch_per\<close>\<close>

text \<open>
  Modelled from the spec: \<^verbatim>\<open>distance.edit_distance\<close> is imported from the
  \<^verbatim>\<open>nltk\<close> library and is not part of the sources. The spec calls it the Levenshtein
  edit distance (insertions, deletions and substitutions, each of cost one); this is the
  recurrence that defines it.
\<close>

fun edit_distance :: "'a list \<Rightarrow> 'a list \<Rightarrow> nat" where
  "edit_distance [] ys = length ys"
| "edit_distance (x # xs) [] = Suc (length xs)"
| "edit_distance (x # xs) (y # ys) =
     min (min (Suc (edit_distance xs (y # ys))) (Suc (edit_distance (x # xs) ys)))
         (edit_distance xs ys + (if x = y then 0 else 1))"

text \<open>
  The meaning of that distance in the spec's glossary, the minimum number of insertions,
  deletions and substitutions that turn one sequence into the other: \<open>edit_script xs ys n\<close>
  holds when \<open>xs\<close> is turned into \<open>ys\<close>, left to right, by keeping symbols and \<open>n\<close>
  such edits.
\<close>

inductive edit_script :: "'a list \<Rightarrow> 'a list \<Rightarrow> nat \<Rightarrow> bool" where
  finished: "edit_script [] [] 0"
| keep: "edit_script xs ys n \<Longrightarrow> edit_script (x # xs) (x # ys) n"
| substitution: "edit_script xs ys n \<Longrightarrow> edit_script (x # xs) (y # ys) (Suc n)"
| deletion: "edit_script xs ys n \<Longrightarrow> edit_script (x # xs) ys (Suc n)"
| insertion: "edit_script xs ys n \<Longrightarrow> edit_script xs (y # ys) (Suc n)"

text \<open>
  Python's true division \<^verbatim>\<open>a / b\<close> of two integers: \<^verbatim>\<open>ZeroDivisionError\<close> when the
  divisor is zero, otherwise the double nearest to the exact quotient.
\<close>

definition int_truediv :: "int \<Rightarrow> int \<Rightarrow> py_error + rat" where
  "int_truediv a b =
     (if b = 0 then Inl ZeroDivisionError else Inr (round_float64 (of_int a / of_int b)))"

text \<open>
  The sum \<^verbatim>\<open>x + y\<close> of two doubles is the rounded exact sum. \<^verbatim>\<open>total_per\<close> starts as
  the integer \<open>0\<close>, which the first addition converts to the double \<open>0\<close>.
\<close>

definition float_add :: "rat \<Rightarrow> rat \<Rightarrow> rat" where
  "float_add x y = round_float64 (x + y)"

text \<open>
  The division \<^verbatim>\<open>x / n\<close> of a double by an integer: the integer is converted to the
  nearest double and the exact quotient is rounded; a zero divisor raises. (With a zero
  divisor \<^verbatim>\<open>total_per\<close> is still the integer \<open>0\<close>, and the division of integers raises
  the same error.)
\<close>

definition float_truediv_int :: "rat \<Rightarrow> int \<Rightarrow> py_error + rat" where
  "float_truediv_int x n =
     (if n = 0 then Inl ZeroDivisionError
      else Inr (round_float64 (x / round_float64 (of_int n))))"

text \<open>Python's \<^verbatim>\<open>xs[i]\<close> for an index \<open>i \<ge> 0\<close>.\<close>

definition py_index :: "'a list \<Rightarrow> nat \<Rightarrow> py_error + 'a" where
  "py_index xs i = (if i < length xs then Inr (xs ! i) else Inl IndexError)"

text \<open>The list comprehension \<^verbatim>\<open>[phn_i for phn_i in seq if phn_i != 0]\<close>.\<close>

definition strip_padding :: "int list \<Rightarrow> int list" where
  "strip_padding seq = filter (\<lambda>phn_i. phn_i \<noteq> 0) seq"

text \<open>
  The body of the loop \<^verbatim>\<open>for i in range(len(hyps))\<close>, run over the remaining
  indices with the running value of \<^verbatim>\<open>total_per\<close>. \<^verbatim>\<open>refs[i]\<close> is read first, then
  \<^verbatim>\<open>hyps[i]\<close>, then the quotient is formed.
\<close>

fun batch_per_loop ::
  "int list list \<Rightarrow> int list list \<Rightarrow> nat list \<Rightarrow> rat \<Rightarrow> py_error + rat" where
  "batch_per_loop hyps refs [] total_per = Inr total_per"
| "batch_per_loop hyps refs (i # rest) total_per =
     (case py_index refs i of
        Inl e \<Rightarrow> Inl e
      | Inr refs_i \<Rightarrow>
          (case py_index hyps i of
             Inl e \<Rightarrow> Inl e
           | Inr hyps_i \<Rightarrow>
               (let ref = strip_padding refs_i;
                    hyp = strip_padding hyps_i
                in case int_truediv (int (edit_distance ref hyp)) (int (length ref)) of
                     Inl e \<Rightarrow> Inl e
                   | Inr per \<Rightarrow> batch_per_loop hyps refs rest (float_add total_per per))))"

definition batch_per :: "int list list \<Rightarrow> int list list \<Rightarrow> py_error + rat" where
  "batch_per hyps refs =
     (case batch_per_loop hyps refs [0..<length hyps] 0 of
        Inl e \<Rightarrow> Inl e
      | Inr total_per \<Rightarrow> float_truediv_int total_per (int (length hyps)))"

text \<open>
  The specification's reading of the result: the mean, over the pairs of the batch, of
  the edit distance of the stripped pair divided by the stripped reference's length;
  first in exact arithmetic, then in double precision: each quotient rounded, the
  quotients added in the order of the batch with every sum rounded, and the total
  divided by the batch size and rounded.
\<close>

definition normalized_distance :: "int list \<Rightarrow> int list \<Rightarrow> rat" where
  "normalized_distance hyp_seq ref_seq =
     of_nat (edit_distance (strip_padding ref_seq) (strip_padding hyp_seq))
       / of_nat (length (strip_padding ref_seq))"

definition mean_error_rate :: "int list list \<Rightarrow> int list list \<Rightarrow> rat" where
  "mean_error_rate hyps refs =
     sum_list (map (\<lambda>(h, r). normalized_distance h r) (zip hyps refs)) / of_nat (length hyps)"

definition float_quotient :: "int list \<Rightarrow> int list \<Rightarrow> rat" where
  "float_quotient hyp_seq ref_seq = round_float64 (normalized_distance hyp_seq ref_seq)"

definition float_sum :: "rat list \<Rightarrow> rat" where
  "float_sum quotients = foldl (\<lambda>total q. round_float64 (total + q)) 0 quotients"

definition float_mean :: "int list list \<Rightarrow> int list list \<Rightarrow> rat" where
  "float_mean hyps refs =
     round_float64 (float_sum (map (\<lambda>(h, r). float_quotient h r) (zip hyps refs))
                      / round_float64 (of_nat (length hyps)))"

text \<open>A sequence with at least one entry that is not the padding value.\<close>

definition has_label :: "int list \<Rightarrow> bool" where
  "has_label seq = (\<exists>phn_i \<in> set seq. phn_i \<noteq> 0)"


section \<open>Sparse targets: \<^verbatim>\<open>target_list_to_sparse_tensor\<close>\<close>

text \<open>
  The inner loop \<^verbatim>\<open>for seq_i, val in enumerate(target)\<close>: the state is the pair of
  lists \<^verbatim>\<open>indices\<close>, \<^verbatim>\<open>vals\<close>, each extended by \<^verbatim>\<open>append\<close>.
\<close>

fun target_loop ::
  "nat \<Rightarrow> nat \<Rightarrow> int list \<Rightarrow> (nat \<times> nat) list \<times> int list \<Rightarrow> (nat \<times> nat) list \<times> int list" where
  "target_loop t_i seq_i [] (indices, vals) = (indices, vals)"
| "target_loop t_i seq_i (val # rest) (indices, vals) =
     target_loop t_i (Suc seq_i) rest (indices @ [(t_i, seq_i)], vals @ [val])"

text \<open>The outer loop \<^verbatim>\<open>for t_i, target in enumerate(target_list)\<close>.\<close>

fun target_list_loop ::
  "nat \<Rightarrow> int list list \<Rightarrow> (nat \<times> nat) list \<times> int list \<Rightarrow> (nat \<times> nat) list \<times> int list" where
  "target_list_loop t_i [] acc = acc"
| "target_list_loop t_i (target # rest) acc =
     target_list_loop (Suc t_i) rest (target_loop t_i 0 target acc)"

text \<open>
  \<^verbatim>\<open>np.asarray(indices).max(0)[1]\<close>: the largest second component. On an empty list
  the array has no elements and the reduction raises \<^verbatim>\<open>ValueError\<close>.
\<close>

definition max_column :: "(nat \<times> nat) list \<Rightarrow> py_error + nat" where
  "max_column indices =
     (case indices of
        [] \<Rightarrow> Inl ValueError
      | p # ps \<Rightarrow> Inr (fold max (map snd ps) (snd p)))"

text \<open>
  \<^verbatim>\<open>np.array(vals)\<close> on a list of Python integers. numpy gives every integer the
  smallest of \<^verbatim>\<open>int64\<close>, \<^verbatim>\<open>uint64\<close> and \<^verbatim>\<open>object\<close> that holds it and the array the
  common type: integers outside both machine ranges make an array of Python objects,
  integers all in one machine range keep their values, and \<^verbatim>\<open>int64\<close> beside
  \<^verbatim>\<open>uint64\<close> is promoted to \<^verbatim>\<open>float64\<close>, which rounds. The empty list gives an empty
  \<^verbatim>\<open>float64\<close> array.
\<close>

datatype np_int_array =
    Int64Array "int list"
  | UInt64Array "int list"
  | Float64Array "rat list"
  | ObjectArray "int list"

definition np_array_ints :: "int list \<Rightarrow> np_int_array" where
  "np_array_ints vals =
     (if vals = [] then Float64Array []
      else if \<exists>v \<in> set vals. v < - (2 ^ 63) \<or> 2 ^ 64 \<le> v then ObjectArray vals
      else if \<forall>v \<in> set vals. v < 2 ^ 63 then Int64Array vals
      else if \<forall>v \<in> set vals. 2 ^ 63 \<le> v then UInt64Array vals
      else Float64Array (map (\<lambda>v. round_float64 (of_int v)) vals))"

text \<open>
  The index pairs and the shape are positions and lengths of lists, which numpy stores
  as \<^verbatim>\<open>int64\<close> unchanged; they stay natural numbers here.
\<close>

definition target_list_to_sparse_tensor ::
  "int list list \<Rightarrow> py_error + ((nat \<times> nat) list \<times> np_int_array \<times> (nat \<times> nat))" where
  "target_list_to_sparse_tensor target_list =
     (case target_list_loop 0 target_list ([], []) of
        (indices, vals) \<Rightarrow>
          (case max_column indices of
             Inl e \<Rightarrow> Inl e
           | Inr m \<Rightarrow> Inr (indices, np_array_ints vals, (length target_list, m + 1))))"

text \<open>
  The specification's reading: the index pairs row by row, the decoding of a sparse
  triple into a dense zero-filled array, and the zero-padded input.
\<close>

definition row_indices :: "nat \<Rightarrow> int list \<Rightarrow> (nat \<times> nat) list" where
  "row_indices t_i target = map (\<lambda>seq_i. (t_i, seq_i)) [0..<length target]"

definition all_indices :: "int list list \<Rightarrow> (nat \<times> nat) list" where
  "all_indices target_list =
     concat (map (\<lambda>(t_i, target). row_indices t_i target) (enumerate 0 target_list))"

definition index_less :: "nat \<times> nat \<Rightarrow> nat \<times> nat \<Rightarrow> bool" where
  "index_less p q = (fst p < fst q \<or> (fst p = fst q \<and> snd p < snd q))"

definition max_length :: "int list list \<Rightarrow> nat" where
  "max_length target_list = fold max (map length target_list) 0"

definition scatter :: "(nat \<times> nat) list \<Rightarrow> int list \<Rightarrow> nat \<times> nat \<Rightarrow> int list list" where
  "scatter indices vals shp =
     fold (\<lambda>(p, v) dense. dense[fst p := (dense ! fst p)[snd p := v]])
       (zip indices vals) (replicate (fst shp) (replicate (snd shp) 0))"

definition zero_padded :: "int list list \<Rightarrow> int list list" where
  "zero_padded target_list =
     map (\<lambda>target. target @ replicate (max_length target_list - length target) 0) target_list"

section \<open>Arrays\<close>

text \<open>
  A numpy array is its shape and its elements in row-major order, which is how numpy
  lays out the arrays built here. The element type is a parameter: the values of the
  array's \<^verbatim>\<open>dtype\<close>.
\<close>

record 'a ndarray =
  shape :: "nat list"
  data :: "'a list"

definition valid :: "'a ndarray \<Rightarrow> bool" where
  "valid a = (length (data a) = prod_list (shape a))"

definition np_zeros :: "nat list \<Rightarrow> ('a::zero) ndarray" where
  "np_zeros shp = \<lparr>shape = shp, data = replicate (prod_list shp) 0\<rparr>"

text \<open>The \<open>k\<close>-th block of \<open>R\<close> consecutive elements.\<close>

definition chunk :: "nat \<Rightarrow> nat \<Rightarrow> 'a list \<Rightarrow> 'a list" where
  "chunk R k xs = take R (drop (k * R) xs)"

text \<open>\<^verbatim>\<open>a[i]\<close> for \<open>i\<close> within the first dimension: the \<open>i\<close>-th sub-array.\<close>

definition item :: "'a ndarray \<Rightarrow> nat \<Rightarrow> 'a ndarray" where
  "item a i = \<lparr>shape = tl (shape a), data = chunk (prod_list (tl (shape a))) i (data a)\<rparr>"

text \<open>Iterating an array yields its sub-arrays; a 0-d array cannot be iterated.\<close>

definition iter_rows :: "'a ndarray \<Rightarrow> py_error + 'a ndarray list" where
  "iter_rows a =
     (case shape a of
        [] \<Rightarrow> Inl TypeError
      | n # rest \<Rightarrow> Inr (map (item a) [0..<n]))"

text \<open>\<^verbatim>\<open>a.shape[0]\<close>: the tuple index fails on a 0-d array.\<close>

definition shape0 :: "'a ndarray \<Rightarrow> py_error + nat" where
  "shape0 a = (case shape a of [] \<Rightarrow> Inl IndexError | n # rest \<Rightarrow> Inr n)"

subsection \<open>Assignment with broadcasting\<close>

text \<open>
  An assignment \<^verbatim>\<open>target[...] = value\<close> broadcasts the value to the shape of the
  target: leading dimensions of size one are dropped from a value with too many
  dimensions, a shorter shape is extended by ones on the left, and every dimension
  must then agree with the target's or be one (then it is repeated).
\<close>

fun strip_leading_ones :: "nat \<Rightarrow> nat list \<Rightarrow> nat list" where
  "strip_leading_ones k [] = []"
| "strip_leading_ones k (d # ds) =
     (if k < length (d # ds) \<and> d = 1 then strip_leading_ones k ds else d # ds)"

fun broadcast_data :: "nat list \<Rightarrow> nat list \<Rightarrow> 'a list \<Rightarrow> 'a list" where
  "broadcast_data (s # ss) (t # ts) d =
     (if s = t then concat (map (\<lambda>k. broadcast_data ss ts (chunk (prod_list ss) k d)) [0..<t])
      else concat (replicate t (broadcast_data ss ts d)))"
| "broadcast_data ss ts d = d"

definition broadcast_to :: "'a ndarray \<Rightarrow> nat list \<Rightarrow> py_error + 'a list" where
  "broadcast_to src dst_shape =
     (let ss = strip_leading_ones (length dst_shape) (shape src);
          ss' = replicate (length dst_shape - length ss) 1 @ ss
      in if length ss \<le> length dst_shape \<and> list_all2 (\<lambda>s t. s = t \<or> s = 1) ss' dst_shape
         then Inr (broadcast_data ss' dst_shape (data src))
         else Inl ValueError)"

text \<open>\<^verbatim>\<open>a[i] = v\<close> for an index \<open>i \<ge> 0\<close>.\<close>

definition set_item :: "'a ndarray \<Rightarrow> nat \<Rightarrow> 'a ndarray \<Rightarrow> py_error + 'a ndarray" where
  "set_item a i v =
     (case shape a of
        [] \<Rightarrow> Inl IndexError
      | n # rest \<Rightarrow>
          if \<not> i < n then Inl IndexError
          else (case broadcast_to v rest of
                  Inl e \<Rightarrow> Inl e
                | Inr d \<Rightarrow>
                    Inr (a\<lparr>data := take (i * prod_list rest) (data a) @ d
                                   @ drop (Suc i * prod_list rest) (data a)\<rparr>)))"

text \<open>\<^verbatim>\<open>a[:n] = v\<close>: the slice holds the first \<open>min n (a.shape[0])\<close> sub-arrays.\<close>

definition set_prefix :: "'a ndarray \<Rightarrow> nat \<Rightarrow> 'a ndarray \<Rightarrow> py_error + 'a ndarray" where
  "set_prefix a n v =
     (case shape a of
        [] \<Rightarrow> Inl IndexError
      | m # rest \<Rightarrow>
          (case broadcast_to v (min n m # rest) of
             Inl e \<Rightarrow> Inl e
           | Inr d \<Rightarrow> Inr (a\<lparr>data := d @ drop (min n m * prod_list rest) (data a)\<rparr>)))"

section \<open>Padding: \<^verbatim>\<open>zero_pad\<close>\<close>

text \<open>
  \<^verbatim>\<open>np.zeros\<close> allocates a \<^verbatim>\<open>float64\<close> array, and the assignment
  \<^verbatim>\<open>result[:n] = matrix\<close> converts the elements of \<^verbatim>\<open>matrix\<close> to \<^verbatim>\<open>float64\<close> as it
  copies them. The conversion numpy applies to the element type of the input is the
  parameter \<open>to_float64\<close>: the identity for a \<^verbatim>\<open>float64\<close> input, \<open>round_float64\<close> for
  an integer input.
\<close>

definition astype :: "('a \<Rightarrow> 'b) \<Rightarrow> 'a ndarray \<Rightarrow> 'b ndarray" where
  "astype convert a = \<lparr>shape = shape a, data = map convert (data a)\<rparr>"

definition zero_pad :: "('a \<Rightarrow> 'b::zero) \<Rightarrow> 'a ndarray \<Rightarrow> int \<Rightarrow> py_error + 'b ndarray" where
  "zero_pad to_float64 matrix to_length =
     (case shape matrix of
        [] \<Rightarrow> Inl IndexError
      | n # rest \<Rightarrow>
          if \<not> int n \<le> to_length then Inl AssertionError
          else set_prefix (np_zeros (nat to_length # rest)) n (astype to_float64 matrix))"

text \<open>The slice \<^verbatim>\<open>a[:n]\<close> of an array of at least one dimension, and a single element.\<close>

definition slice_prefix :: "'a ndarray \<Rightarrow> nat \<Rightarrow> 'a ndarray" where
  "slice_prefix a n =
     \<lparr>shape = min n (hd (shape a)) # tl (shape a),
      data = take (min n (hd (shape a)) * prod_list (tl (shape a))) (data a)\<rparr>"

definition ravel_index :: "nat list \<Rightarrow> nat list \<Rightarrow> nat" where
  "ravel_index shp idx = foldl (\<lambda>off (d, i). off * d + i) 0 (zip shp idx)"

definition element :: "'a ndarray \<Rightarrow> nat list \<Rightarrow> 'a" where
  "element a idx = data a ! ravel_index (shape a) idx"


section \<open>Merging channels: \<^verbatim>\<open>collapse\<close>\<close>

text \<open>
  \<^verbatim>\<open>np.swapaxes(a, 0, 1)\<close>: the element at \<open>[i][j]\<close> moves to \<open>[j][i]\<close>; an array of
  fewer than two dimensions has no axis 1.
\<close>

definition np_swapaxes01 :: "'a ndarray \<Rightarrow> py_error + 'a ndarray" where
  "np_swapaxes01 a =
     (case shape a of
        p # q # rest \<Rightarrow>
          Inr \<lparr>shape = q # p # rest,
               data = concat (map (\<lambda>j. concat (map (\<lambda>i. chunk (prod_list rest) (i * q + j) (data a))
                                                  [0..<p])) [0..<q])\<rparr>
      | _ \<Rightarrow> Inl AxisError)"

text \<open>
  \<^verbatim>\<open>np.concatenate(seq, axis=1)\<close> on a sequence of arrays: at least one array is
  needed, the first one fixes the number of dimensions (none is refused, one has no
  axis 1), and the others must agree with it in every dimension but the second. The
  \<open>i\<close>-th sub-array of the result is the \<open>i\<close>-th sub-arrays of the arguments, one after
  the other.
\<close>

definition np_concatenate_axis1 :: "'a ndarray list \<Rightarrow> py_error + 'a ndarray" where
  "np_concatenate_axis1 arrays =
     (case arrays of
        [] \<Rightarrow> Inl ValueError
      | a # others \<Rightarrow>
          (case shape a of
             [] \<Rightarrow> Inl ValueError
           | [p] \<Rightarrow> Inl AxisError
           | p # m # rest \<Rightarrow>
               if list_all (\<lambda>x. length (shape x) = length (shape a) \<and> hd (shape x) = p
                                 \<and> drop 2 (shape x) = rest) others
               then Inr \<lparr>shape = p # sum_list (map (\<lambda>x. shape x ! 1) arrays) # rest,
                         data = concat (map (\<lambda>i. concat (map (\<lambda>x. data (item x i)) arrays))
                                          [0..<p])\<rparr>
               else Inl ValueError))"

text \<open>
  \<^verbatim>\<open>np.array(xs)\<close> on a list of arrays stacks them along a new first axis; the empty
  list gives the empty one-dimensional array. Arrays of different shapes are refused
  (in \<^verbatim>\<open>collapse\<close> they all have one shape).
\<close>

definition np_array :: "'a ndarray list \<Rightarrow> py_error + 'a ndarray" where
  "np_array arrays =
     (case arrays of
        [] \<Rightarrow> Inr \<lparr>shape = [0], data = []\<rparr>
      | a # others \<Rightarrow>
          if list_all (\<lambda>x. shape x = shape a) others
          then Inr \<lparr>shape = length arrays # shape a, data = concat (map data arrays)\<rparr>
          else Inl ValueError)"

text \<open>
  \<^verbatim>\<open>np.transpose(a, (1, 0, 2))\<close>: the permutation has three entries, so the array
  must have three dimensions; it then exchanges the first two axes.
\<close>

definition np_transpose102 :: "'a ndarray \<Rightarrow> py_error + 'a ndarray" where
  "np_transpose102 a = (if length (shape a) = 3 then np_swapaxes01 a else Inl ValueError)"

text \<open>The loop \<^verbatim>\<open>for utterance in batch_x\<close>, appending to \<^verbatim>\<open>new_batch_x\<close>.\<close>

fun collapse_loop :: "'a ndarray list \<Rightarrow> 'a ndarray list \<Rightarrow> py_error + 'a ndarray list" where
  "collapse_loop [] new_batch_x = Inr new_batch_x"
| "collapse_loop (utterance # rest) new_batch_x =
     (case np_swapaxes01 utterance of
        Inl e \<Rightarrow> Inl e
      | Inr swapped \<Rightarrow>
          (case iter_rows swapped of
             Inl e \<Rightarrow> Inl e
           | Inr slices \<Rightarrow>
               (case np_concatenate_axis1 slices of
                  Inl e \<Rightarrow> Inl e
                | Inr concatenated \<Rightarrow> collapse_loop rest (new_batch_x @ [concatenated]))))"

definition collapse :: "'a ndarray \<Rightarrow> bool \<Rightarrow> py_error + 'a ndarray" where
  "collapse batch_x time_major =
     (case iter_rows batch_x of
        Inl e \<Rightarrow> Inl e
      | Inr utterances \<Rightarrow>
          (case collapse_loop utterances [] of
             Inl e \<Rightarrow> Inl e
           | Inr new_batch_x \<Rightarrow>
               (case np_array new_batch_x of
                  Inl e \<Rightarrow> Inl e
                | Inr stacked \<Rightarrow>
                    if time_major then np_transpose102 stacked else Inr stacked)))"

section \<open>Batches: \<^verbatim>\<open>load_batch_x\<close>\<close>

text \<open>
  The files on disk are a partial map from paths to arrays; \<^verbatim>\<open>np.load\<close> of a path
  that is not there raises.
\<close>

definition np_load :: "(string \<rightharpoonup> 'a ndarray) \<Rightarrow> string \<Rightarrow> py_error + 'a ndarray" where
  "np_load fs path = (case fs path of None \<Rightarrow> Inl FileNotFoundError | Some a \<Rightarrow> Inr a)"

text \<open>A list comprehension whose element expression may raise: the first error ends it.\<close>

fun comprehension :: "('a \<Rightarrow> py_error + 'b) \<Rightarrow> 'a list \<Rightarrow> py_error + 'b list" where
  "comprehension f [] = Inr []"
| "comprehension f (x # xs) =
     (case f x of
        Inl e \<Rightarrow> Inl e
      | Inr y \<Rightarrow> (case comprehension f xs of Inl e \<Rightarrow> Inl e | Inr ys \<Rightarrow> Inr (y # ys)))"

text \<open>\<^verbatim>\<open>max(xs)\<close> of a list: \<^verbatim>\<open>ValueError\<close> on the empty list.\<close>

definition py_max :: "nat list \<Rightarrow> py_error + nat" where
  "py_max xs = (case xs of [] \<Rightarrow> Inl ValueError | x # rest \<Rightarrow> Inr (fold max rest x))"

text \<open>
  The loop \<^verbatim>\<open>for i, utt in enumerate(utterances): batch[i] = zero_pad(utt, max_len)\<close>.
  The batch and the padded arrays are both \<^verbatim>\<open>float64\<close>, so this assignment converts
  nothing.
\<close>

fun fill_batch ::
  "('a \<Rightarrow> 'b::zero) \<Rightarrow> 'b ndarray \<Rightarrow> nat \<Rightarrow> 'a ndarray list \<Rightarrow> nat
     \<Rightarrow> py_error + 'b ndarray" where
  "fill_batch to_float64 batch i [] max_len = Inr batch"
| "fill_batch to_float64 batch i (utt # rest) max_len =
     (case zero_pad to_float64 utt (int max_len) of
        Inl e \<Rightarrow> Inl e
      | Inr padded \<Rightarrow>
          (case set_item batch i padded of
             Inl e \<Rightarrow> Inl e
           | Inr batch' \<Rightarrow> fill_batch to_float64 batch' (Suc i) rest max_len))"

text \<open>
  The files hold arrays of one element type, converted to \<^verbatim>\<open>float64\<close> by
  \<open>to_float64\<close>; the batch is a \<^verbatim>\<open>float64\<close> array.
\<close>

definition load_batch_x ::
  "('a \<Rightarrow> 'b::zero) \<Rightarrow> (string \<rightharpoonup> 'a ndarray) \<Rightarrow> string list \<Rightarrow> bool \<Rightarrow> bool
     \<Rightarrow> py_error + ('b ndarray \<times> nat list)" where
  "load_batch_x to_float64 fs path_batch flatten time_major =
     (case comprehension (np_load fs) path_batch of
        Inl e \<Rightarrow> Inl e
      | Inr utterances \<Rightarrow>
     (case comprehension shape0 utterances of
        Inl e \<Rightarrow> Inl e
      | Inr utter_lens \<Rightarrow>
     (case py_max utter_lens of
        Inl e \<Rightarrow> Inl e
      | Inr max_len \<Rightarrow>
     (case py_index utterances 0 of
        Inl e \<Rightarrow> Inl e
      | Inr first \<Rightarrow>
     (case fill_batch to_float64 (np_zeros (length path_batch # max_len # tl (shape first)))
                      0 utterances max_len of
        Inl e \<Rightarrow> Inl e
      | Inr batch \<Rightarrow>
          if flatten
          then (case collapse batch time_major of
                  Inl e \<Rightarrow> Inl e
                | Inr collapsed \<Rightarrow> Inr (collapsed, utter_lens))
          else Inr (batch, utter_lens))))))"

section \<open>File inventory: \<^verbatim>\<open>get_prefixes\<close>\<close>

text \<open>
  A directory holds file names and named sub-directories, in the order the operating
  system lists them.
\<close>

datatype dirtree = Dir (files: "string list") (subdirs: "(string \<times> dirtree) list")

text \<open>\<^verbatim>\<open>os.path.join(a, b)\<close> of the POSIX path module.\<close>

definition py_startswith :: "string \<Rightarrow> string \<Rightarrow> bool" where
  "py_startswith s pre = (take (length pre) s = pre)"

definition py_endswith :: "string \<Rightarrow> string \<Rightarrow> bool" where
  "py_endswith s suf = (length suf \<le> length s \<and> drop (length s - length suf) s = suf)"

definition os_path_join :: "string \<Rightarrow> string \<Rightarrow> string" where
  "os_path_join a b =
     (if py_startswith b ''/'' then b
      else if a = [] \<or> py_endswith a ''/'' then a @ b
      else a @ ''/'' @ b)"

text \<open>
  \<^verbatim>\<open>os.walk(top)\<close>, top-down: the triple of the directory itself, then the walks of
  its sub-directories.
\<close>

fun os_walk :: "string \<Rightarrow> dirtree \<Rightarrow> (string \<times> string list \<times> string list) list" where
  "os_walk top_dir (Dir filenames dirs) =
     (top_dir, map fst dirs, filenames)
       # concat (map (\<lambda>(name, sub). os_walk (os_path_join top_dir name) sub) dirs)"

text \<open>\<^verbatim>\<open>s.split(sep)\<close> for a one-character separator: the parts between the separators.\<close>

fun py_split :: "char \<Rightarrow> string \<Rightarrow> string list" where
  "py_split sep [] = [[]]"
| "py_split sep (c # cs) =
     (if c = sep then [] # py_split sep cs
      else (case py_split sep cs of
              part # parts \<Rightarrow> (c # part) # parts
            | [] \<Rightarrow> [[c]]))"

text \<open>The inner loop \<^verbatim>\<open>for filename in filenames\<close>, appending to \<^verbatim>\<open>prefixes\<close>.\<close>

fun filenames_loop :: "string \<Rightarrow> string \<Rightarrow> string list \<Rightarrow> string list \<Rightarrow> string list" where
  "filenames_loop extension root_dir [] prefixes = prefixes"
| "filenames_loop extension root_dir (filename # rest) prefixes =
     filenames_loop extension root_dir rest
       (if py_endswith filename extension
        then prefixes @ [os_path_join root_dir (hd (py_split CHR ''.'' filename))]
        else prefixes)"

text \<open>The outer loop \<^verbatim>\<open>for root, _, filenames in os.walk(dirname)\<close>.\<close>

fun walk_loop ::
  "string \<Rightarrow> (string \<times> string list \<times> string list) list \<Rightarrow> string list \<Rightarrow> string list" where
  "walk_loop extension [] prefixes = prefixes"
| "walk_loop extension ((root_dir, dirnames, filenames) # rest) prefixes =
     walk_loop extension rest (filenames_loop extension root_dir filenames prefixes)"

text \<open>
  \<^verbatim>\<open>sorted\<close> orders strings lexicographically by character code, which is the order
  of \<open>string\<close> here.
\<close>

definition get_prefixes :: "dirtree \<Rightarrow> string \<Rightarrow> string \<Rightarrow> string list" where
  "get_prefixes tree dirname extension = sort (walk_loop extension (os_walk dirname tree) [])"

text \<open>
  The specification's reading of one identifier: the directory joined with the part of
  the file name before its first period; and the matching files of a walk, in its order.
\<close>

definition example_id :: "string \<Rightarrow> string \<Rightarrow> string" where
  "example_id root_dir filename = os_path_join root_dir (takeWhile (\<lambda>c. c \<noteq> CHR ''.'') filename)"

definition matching_files ::
  "string \<Rightarrow> (string \<times> string list \<times> string list) list \<Rightarrow> (string \<times> string) list" where
  "matching_files extension walk =
     concat (map (\<lambda>(root_dir, dirnames, filenames).
                    map (\<lambda>filename. (root_dir, filename))
                      (filter (\<lambda>filename. py_endswith filename extension) filenames)) walk)"


section \<open>Properties of \<^verbatim>\<open>batch_per\<close>\<close>

lemma edit_distance_same: "edit_distance xs xs = 0"
  by (induction xs) simp_all

text \<open>The recurrence computes the least cost of an edit script.\<close>

lemma edit_distance_Nil2: "edit_distance xs [] = length xs"
  by (cases xs) simp_all

lemma edit_script_all_insertions: "edit_script [] ys (length ys)"
  by (induction ys) (auto intro: edit_script.intros)

lemma edit_script_all_deletions: "edit_script xs [] (length xs)"
  by (induction xs) (auto intro: edit_script.intros)

lemma edit_distance_attained: "edit_script xs ys (edit_distance xs ys)"
proof (induction xs ys rule: edit_distance.induct)
  case (1 ys)
  then show ?case by (simp add: edit_script_all_insertions)
next
  case (2 x xs)
  then show ?case
    using edit_script_all_deletions[of "x # xs"] by simp
next
  case (3 x xs y ys)
  let ?del = "Suc (edit_distance xs (y # ys))"
  let ?ins = "Suc (edit_distance (x # xs) ys)"
  let ?sub = "edit_distance xs ys + (if x = y then 0 else 1)"
  have d: "edit_script (x # xs) (y # ys) ?del"
    using 3 by (auto intro: edit_script.deletion)
  have i: "edit_script (x # xs) (y # ys) ?ins"
    using 3 by (auto intro: edit_script.insertion)
  have s: "edit_script (x # xs) (y # ys) ?sub"
    using 3 by (auto intro: edit_script.keep edit_script.substitution)
  have "edit_distance (x # xs) (y # ys) = min (min ?del ?ins) ?sub" by simp
  then have "edit_distance (x # xs) (y # ys) = ?del \<or> edit_distance (x # xs) (y # ys) = ?ins
             \<or> edit_distance (x # xs) (y # ys) = ?sub"
    unfolding min_def by presburger
  with d i s show ?case by metis
qed

lemma edit_distance_least:
  assumes "edit_script xs ys n"
  shows "edit_distance xs ys \<le> n"
  using assms
proof (induction rule: edit_script.induct)
  case finished
  then show ?case by simp
next
  case (keep xs ys n x)
  then show ?case by (simp add: min_le_iff_disj)
next
  case (substitution xs ys n x y)
  then show ?case by (auto simp: min_le_iff_disj)
next
  case (deletion xs ys n x)
  show ?case
  proof (cases ys)
    case Nil
    with deletion.IH show ?thesis by (simp add: edit_distance_Nil2)
  next
    case (Cons y ys')
    with deletion.IH show ?thesis by (simp add: min_le_iff_disj)
  qed
next
  case (insertion xs ys n y)
  show ?case
  proof (cases xs)
    case Nil
    with insertion.IH show ?thesis by simp
  next
    case (Cons x xs')
    with insertion.IH show ?thesis by (simp add: min_le_iff_disj)
  qed
qed

lemma edit_distance_is_minimum:
  "edit_script xs ys (edit_distance xs ys) \<and> (\<forall>n. edit_script xs ys n \<longrightarrow> edit_distance xs ys \<le> n)"
  using edit_distance_attained edit_distance_least by blast

lemma has_label_strip: "has_label seq \<longleftrightarrow> strip_padding seq \<noteq> []"
  by (auto simp: has_label_def strip_padding_def filter_empty_conv)

lemma round_float64_zero: "round_float64 0 = 0"
  by (simp add: round_float64_def)

lemma round_float64_minus: "round_float64 (- x) = - round_float64 x"
  by (simp add: round_float64_def Let_def)

text \<open>
  Familiar values: the doubles written \<^verbatim>\<open>0.1\<close> and \<^verbatim>\<open>0.3\<close>, the sum
  \<^verbatim>\<open>0.1 + 0.2 = 0.30000000000000004\<close>, and two ties between neighbouring doubles
  above \<open>2^53\<close>, which go to the even significand.
\<close>

lemma round_float64_examples:
  "round_float64 (1 / 10) = 3602879701896397 / 36028797018963968"
  "round_float64 (3 / 10) = 5404319552844595 / 18014398509481984"
  "round_float64 (3602879701896397 / 36028797018963968 + 3602879701896397 / 18014398509481984)
     = 1351079888211149 / 4503599627370496"
  "round_float64 9007199254740993 = 9007199254740992"
  "round_float64 9007199254740995 = 9007199254740996"
  by code_simp+

lemma batch_per_loop_sum:
  assumes "\<forall>i \<in> set idxs. i < length hyps \<and> i < length refs \<and> has_label (refs ! i)"
  shows "batch_per_loop hyps refs idxs total_per =
           Inr (foldl (\<lambda>total q. round_float64 (total + q)) total_per
                  (map (\<lambda>i. float_quotient (hyps ! i) (refs ! i)) idxs))"
  using assms
proof (induction idxs arbitrary: total_per)
  case Nil
  then show ?case by simp
next
  case (Cons i rest)
  then have "length (strip_padding (refs ! i)) \<noteq> 0"
    by (simp add: has_label_strip)
  with Cons show ?case
    by (simp add: py_index_def int_truediv_def float_add_def float_quotient_def
        normalized_distance_def Let_def)
qed

lemma float_sum_all_zero:
  assumes "\<forall>q \<in> set quotients. q = 0"
  shows "float_sum quotients = 0"
proof -
  have "foldl (\<lambda>total q. round_float64 (total + q)) 0 quotients = 0"
    using assms
  proof (induction quotients)
    case Nil
    then show ?case by simp
  next
    case (Cons q rest)
    then have "q = 0" by simp
    with Cons show ?case by (simp add: round_float64_zero)
  qed
  then show ?thesis by (simp add: float_sum_def)
qed

lemma zip_by_index:
  assumes "length hyps = length refs"
  shows "map (\<lambda>i. f (hyps ! i) (refs ! i)) [0..<length hyps] = map (\<lambda>(h, r). f h r) (zip hyps refs)"
  using assms by (intro nth_equalityI) simp_all

lemma batch_per_loop_zero_div:
  assumes "\<forall>i \<in> set idxs. i < length hyps \<and> i < length refs"
    and "\<exists>i \<in> set idxs. \<not> has_label (refs ! i)"
  shows "batch_per_loop hyps refs idxs total_per = Inl ZeroDivisionError"
  using assms
proof (induction idxs arbitrary: total_per)
  case Nil
  then show ?case by simp
next
  case (Cons i rest)
  show ?case
  proof (cases "has_label (refs ! i)")
    case True
    with Cons.prems have "\<exists>j \<in> set rest. \<not> has_label (refs ! j)" by auto
    moreover from Cons.prems have "\<forall>j \<in> set rest. j < length hyps \<and> j < length refs" by simp
    ultimately have "\<And>t. batch_per_loop hyps refs rest t = Inl ZeroDivisionError"
      using Cons.IH by blast
    with Cons.prems True show ?thesis
      by (simp add: py_index_def int_truediv_def has_label_strip Let_def)
  next
    case False
    with Cons.prems show ?thesis
      by (simp add: py_index_def int_truediv_def has_label_strip Let_def)
  qed
qed

lemma third: "round_float64 (1 / 3) = 6004799503160661 / 18014398509481984"
  by code_simp

lemma third_is_double:
  "round_float64 (6004799503160661 / 18014398509481984) = 6004799503160661 / 18014398509481984"
  by code_simp

lemma one_is_double: "round_float64 1 = 1"
  by code_simp

lemma two_is_double: "round_float64 2 = 2"
  by code_simp

lemma single_pair_example:
  "batch_per [[1, 3]] [[1, 2, 3]] = Inr (6004799503160661 / 18014398509481984)"
proof -
  have ed: "edit_distance [1, 2, 3 :: int] [1, 3] = 1" by simp
  have "batch_per_loop [[1, 3]] [[1, 2, 3]] [0] 0 = Inr (6004799503160661 / 18014398509481984)"
    by (simp add: py_index_def int_truediv_def float_add_def strip_padding_def ed third
        third_is_double)
  then show ?thesis
    by (simp add: batch_per_def float_truediv_int_def one_is_double third_is_double)
qed

lemma two_pair_example:
  "batch_per [[50], [50, 50, 3]] [[1], [1, 2, 3]] = Inr (3752999689475413 / 4503599627370496)"
proof -
  have ed: "edit_distance [1 :: int] [50] = 1" "edit_distance [1, 2, 3 :: int] [50, 50, 3] = 2"
    by simp_all
  have q2: "round_float64 (2 / 3) = 6004799503160661 / 9007199254740992"
    by code_simp
  have s2: "round_float64 (15011998757901653 / 9007199254740992)
            = 3752999689475413 / 2251799813685248"
    by code_simp
  have m: "round_float64 (3752999689475413 / 4503599627370496)
           = 3752999689475413 / 4503599627370496"
    by code_simp
  have idx: "[0..<2] = [0, 1]"
    by (simp add: upt_rec)
  have "batch_per_loop [[50], [50, 50, 3]] [[1], [1, 2, 3]] [0, 1] 0
        = Inr (3752999689475413 / 2251799813685248)"
    by (simp add: py_index_def int_truediv_def float_add_def strip_padding_def ed
        one_is_double q2 s2)
  then show ?thesis
    by (simp add: batch_per_def float_truediv_int_def idx two_is_double m)
qed

text \<open>
  Claim C1, as stated, at two inputs. At the empty batch the two batches have equal
  length and every reference (there is none) has a non-zero entry, yet \<^verbatim>\<open>batch_per\<close>
  does not return a mean: the final division is \<^verbatim>\<open>0/0\<close> and raises. At the batch of
  references \<open>[1]\<close>, \<open>[1,2,3]\<close> with hypotheses \<open>[50]\<close>, \<open>[50,50,3]\<close> the quotients are 1
  and 2/3 and their mean is 5/6, but the number returned is the double
  0.8333333333333333, which is neither 5/6 nor the double nearest to it.
\<close>

theorem batch_per_not_exact_mean:
  "length ([] :: int list list) = length ([] :: int list list)
   \<and> list_all has_label []
   \<and> batch_per [] [] = Inl ZeroDivisionError
   \<and> length [[50], [50, 50, 3 :: int]] = length [[1], [1, 2, 3 :: int]]
   \<and> list_all has_label [[1], [1, 2, 3]]
   \<and> mean_error_rate [[50], [50, 50, 3]] [[1], [1, 2, 3]] = 5 / 6
   \<and> batch_per [[50], [50, 50, 3]] [[1], [1, 2, 3]] = Inr (3752999689475413 / 4503599627370496)
   \<and> (3752999689475413 / 4503599627370496 :: rat) \<noteq> 5 / 6
   \<and> (3752999689475413 / 4503599627370496 :: rat) \<noteq> round_float64 (5 / 6)"
proof -
  have "round_float64 (5 / 6) = 7505999378950827 / 9007199254740992"
    by code_simp
  moreover have "mean_error_rate [[50], [50, 50, 3]] [[1], [1, 2, 3]] = 5 / 6"
    by (simp add: mean_error_rate_def normalized_distance_def strip_padding_def)
  moreover have "batch_per [] [] = Inl ZeroDivisionError"
    by (simp add: batch_per_def float_truediv_int_def)
  ultimately show ?thesis
    using two_pair_example by (simp add: has_label_def)
qed

text \<open>
  Claim C1, amended to non-empty batches and to double precision: for two batches of
  equal, non-zero length in which every reference has a non-zero entry, \<^verbatim>\<open>batch_per\<close>
  returns the double-precision mean over the pairs of the edit distance between the
  stripped reference and the stripped hypothesis divided by the stripped reference's
  length: each quotient is the double nearest to the exact one, the quotients are added
  in batch order with every sum rounded, and the total is divided by the batch size
  and rounded. When every hypothesis equals its reference after stripping the result is
  exactly 0, and for the single pair reference \<open>[1,2,3]\<close>, hypothesis \<open>[1,3]\<close> it is the
  double nearest to 1/3.
\<close>

theorem batch_per_mean:
  assumes "hyps \<noteq> []" and "length hyps = length refs"
    and "\<forall>ref \<in> set refs. has_label ref"
  shows "batch_per hyps refs = Inr (float_mean hyps refs)
       \<and> (map strip_padding hyps = map strip_padding refs \<longrightarrow> batch_per hyps refs = Inr 0)
       \<and> batch_per [[1, 3]] [[1, 2, 3]] = Inr (round_float64 (1 / 3))"
proof -
  have lab: "\<forall>i \<in> set [0..<length hyps]. i < length hyps \<and> i < length refs \<and> has_label (refs ! i)"
    using assms(2,3) by simp
  have main: "batch_per hyps refs = Inr (float_mean hyps refs)"
    using assms(1) batch_per_loop_sum[OF lab, of 0] zip_by_index[OF assms(2), of float_quotient]
    by (simp add: batch_per_def float_truediv_int_def float_mean_def float_sum_def)
  have same: "float_mean hyps refs = 0" if eq: "map strip_padding hyps = map strip_padding refs"
  proof -
    have "float_quotient h r = 0" if "(h, r) \<in> set (zip hyps refs)" for h r
    proof -
      from that obtain i where "i < length hyps" "hyps ! i = h" "refs ! i = r"
        using assms(2) by (auto simp: set_zip)
      with eq assms(2) have "strip_padding h = strip_padding r"
        by (metis nth_map)
      then show ?thesis
        by (simp add: float_quotient_def normalized_distance_def edit_distance_same
            round_float64_zero)
    qed
    then have "float_sum (map (\<lambda>(h, r). float_quotient h r) (zip hyps refs)) = 0"
      by (intro float_sum_all_zero) auto
    then show ?thesis by (simp add: float_mean_def round_float64_zero)
  qed
  have ex: "batch_per [[1, 3]] [[1, 2, 3]] = Inr (round_float64 (1 / 3))"
    using single_pair_example by (simp add: third)
  from main same ex show ?thesis by simp
qed

text \<open>
  Claim C1, the amended theorem at two concrete batches: the references \<open>[1]\<close>,
  \<open>[1,2,3]\<close> with hypotheses \<open>[50]\<close>, \<open>[50,50,3]\<close>, where the rounded quotients 1 and
  0.6666666666666666 add up to 1.6666666666666665 and the result is
  0.8333333333333333; and two pairs that agree after stripping, whose mean is 0.
\<close>

theorem batch_per_mean_witness:
  "batch_per [[50], [50, 50, 3]] [[1], [1, 2, 3]] = Inr (float_mean [[50], [50, 50, 3]] [[1], [1, 2, 3]])
   \<and> float_mean [[50], [50, 50, 3]] [[1], [1, 2, 3]] = 3752999689475413 / 4503599627370496
   \<and> batch_per [[1, 2, 0], [0, 7]] [[1, 0, 2], [7, 0]] = Inr 0"
proof -
  have h1: "[[50], [50, 50, 3]] \<noteq> ([] :: int list list)"
    "length [[50], [50, 50, 3 :: int]] = length [[1], [1, 2, 3 :: int]]"
    "\<forall>ref \<in> set [[1], [1, 2, 3]]. has_label ref"
    by (simp_all add: has_label_def)
  from batch_per_mean[OF h1]
  have a: "batch_per [[50], [50, 50, 3]] [[1], [1, 2, 3]]
           = Inr (float_mean [[50], [50, 50, 3]] [[1], [1, 2, 3]])"
    by blast
  with two_pair_example
  have b: "float_mean [[50], [50, 50, 3]] [[1], [1, 2, 3]] = 3752999689475413 / 4503599627370496"
    by simp
  have h2: "[[1, 2, 0], [0, 7]] \<noteq> ([] :: int list list)"
    "length [[1, 2, 0], [0, 7 :: int]] = length [[1, 0, 2], [7, 0 :: int]]"
    "\<forall>ref \<in> set [[1, 0, 2], [7, 0]]. has_label ref"
    by (simp_all add: has_label_def)
  from batch_per_mean[OF h2]
  have "map strip_padding [[1, 2, 0], [0, 7]] = map strip_padding [[1, 0, 2], [7, 0]]
        \<longrightarrow> batch_per [[1, 2, 0], [0, 7]] [[1, 0, 2], [7, 0]] = Inr 0"
    by blast
  moreover have "map strip_padding [[1, 2, 0], [0, 7]] = map strip_padding [[1, 0, 2], [7, 0]]"
    by (simp add: strip_padding_def)
  ultimately have c: "batch_per [[1, 2, 0], [0, 7]] [[1, 0, 2], [7, 0]] = Inr 0"
    by blast
  from a b c show ?thesis by blast
qed

text \<open>
  Claim C8: when some reference of the batch has only padding entries (its stripped
  length is zero), \<^verbatim>\<open>batch_per\<close> raises \<^verbatim>\<open>ZeroDivisionError\<close> and returns no number.
  The batch pairs each reference with a hypothesis, so the two lists have equal length.
\<close>

theorem batch_per_zero_reference:
  assumes "length hyps = length refs"
    and "\<exists>ref \<in> set refs. \<forall>phn_i \<in> set ref. phn_i = 0"
  shows "batch_per hyps refs = Inl ZeroDivisionError"
proof -
  from assms(2) obtain i where "i < length refs" "\<forall>x \<in> set (refs ! i). x = 0"
    by (auto simp: in_set_conv_nth)
  then have "\<exists>i \<in> set [0..<length hyps]. \<not> has_label (refs ! i)"
    using assms(1) by (auto simp: has_label_def)
  moreover have "\<forall>i \<in> set [0..<length hyps]. i < length hyps \<and> i < length refs"
    using assms(1) by simp
  ultimately show ?thesis
    using batch_per_loop_zero_div[of "[0..<length hyps]" hyps refs 0]
    by (simp add: batch_per_def)
qed

text \<open>
  Claim C8 at a concrete batch: the second reference is all padding, the first pair is
  scored before the division by zero.
\<close>

theorem batch_per_zero_reference_witness:
  "length [[1, 2], [3, 0 :: int]] = length [[1, 2], [0, 0 :: int]]
   \<and> batch_per [[1, 2], [3, 0]] [[1, 2], [0, 0]] = Inl ZeroDivisionError"
  using batch_per_zero_reference[of "[[1, 2], [3, 0]]" "[[1, 2], [0, 0]]"] by simp

section \<open>Properties of \<^verbatim>\<open>target_list_to_sparse_tensor\<close>\<close>

lemma target_loop_eq:
  "target_loop t_i seq_i target (indices, vals) =
     (indices @ map (\<lambda>j. (t_i, j)) [seq_i..<seq_i + length target], vals @ target)"
proof (induction target arbitrary: seq_i indices vals)
  case Nil
  then show ?case by simp
next
  case (Cons val rest)
  have "[seq_i..<seq_i + length (val # rest)] = seq_i # [Suc seq_i..<Suc seq_i + length rest]"
    by (subst upt_rec) simp
  with Cons show ?case by simp
qed

lemma target_list_loop_eq:
  "target_list_loop t_i target_list (indices, vals) =
     (indices @ concat (map (\<lambda>(i, target). row_indices i target) (enumerate t_i target_list)),
      vals @ concat target_list)"
proof (induction target_list arbitrary: t_i indices vals)
  case Nil
  then show ?case by simp
next
  case (Cons target rest)
  then show ?case by (simp add: target_loop_eq row_indices_def)
qed

lemma loop_result:
  "target_list_loop 0 target_list ([], []) = (all_indices target_list, concat target_list)"
  by (simp add: target_list_loop_eq all_indices_def)

lemma all_indices_snoc:
  "all_indices (ts @ [t]) = all_indices ts @ row_indices (length ts) t"
  by (simp add: all_indices_def enumerate_append_eq)

lemma length_all_indices: "length (all_indices ts) = sum_list (map length ts)"
proof (induction ts rule: rev_induct)
  case Nil
  then show ?case by (simp add: all_indices_def)
next
  case (snoc t ts)
  then show ?case by (simp add: all_indices_snoc row_indices_def)
qed

lemma set_all_indices:
  "set (all_indices ts) = {(i, j). i < length ts \<and> j < length (ts ! i)}"
proof (induction ts rule: rev_induct)
  case Nil
  then show ?case by (simp add: all_indices_def)
next
  case (snoc t ts)
  show ?case
    by (auto simp: all_indices_snoc snoc row_indices_def nth_append less_Suc_eq)
qed

lemma all_indices_Nil_iff: "all_indices ts = [] \<longleftrightarrow> concat ts = []"
proof -
  have "length (all_indices ts) = length (concat ts)"
    by (simp add: length_all_indices length_concat)
  then show ?thesis by (metis length_0_conv)
qed

lemma sorted_all_indices: "sorted_wrt index_less (all_indices ts)"
proof (induction ts rule: rev_induct)
  case Nil
  then show ?case by (simp add: all_indices_def)
next
  case (snoc t ts)
  have "sorted_wrt index_less (row_indices (length ts) t)"
    by (simp add: row_indices_def sorted_wrt_map index_less_def)
  moreover have "index_less p q"
    if "p \<in> set (all_indices ts)" "q \<in> set (row_indices (length ts) t)" for p q
    using that by (auto simp: set_all_indices row_indices_def index_less_def)
  ultimately show ?case
    using snoc by (simp add: all_indices_snoc sorted_wrt_append)
qed

lemma fold_max_eq: "fold max xs (x::nat) = Max (set (x # xs))"
  using Max.set_eq_fold[of x xs] by simp

lemma max_length_ge: "t \<in> set ts \<Longrightarrow> length t \<le> max_length ts"
  by (simp add: max_length_def fold_max_eq)

lemma max_column_all_indices:
  assumes "concat ts \<noteq> []"
  shows "max_column (all_indices ts) = Inr (max_length ts - 1) \<and> 0 < max_length ts"
proof -
  let ?I = "all_indices ts"
  from assms have ne: "?I \<noteq> []" by (simp add: all_indices_Nil_iff)
  then obtain p ps where I: "?I = p # ps" by (cases ?I) auto
  have col: "max_column ?I = Inr (Max (snd ` set ?I))"
    by (simp add: I max_column_def fold_max_eq)
  let ?M = "max_length ts"
  have M: "?M = Max (insert 0 (length ` set ts))"
    by (simp add: max_length_def fold_max_eq)
  have fin: "finite (snd ` set ?I)" "snd ` set ?I \<noteq> {}" using ne by auto
  have "Max (snd ` set ?I) \<in> snd ` set ?I" using fin by (rule Max_in)
  then obtain i where i: "i < length ts" "Max (snd ` set ?I) < length (ts ! i)"
    by (auto simp: set_all_indices)
  then have up: "Max (snd ` set ?I) < ?M"
    using max_length_ge[of "ts ! i" ts] by simp
  have "?M \<in> insert 0 (length ` set ts)" unfolding M by (rule Max_in) auto
  with up obtain t where t: "t \<in> set ts" "length t = ?M" by auto
  then obtain k where k: "k < length ts" "ts ! k = t" by (auto simp: in_set_conv_nth)
  with t up have "(k, ?M - 1) \<in> set ?I" by (auto simp: set_all_indices)
  then have "?M - 1 \<in> snd ` set ?I" by force
  then have "?M - 1 \<le> Max (snd ` set ?I)" using fin by simp
  with up col show ?thesis by simp
qed

lemma sparse_tensor_result:
  assumes "concat target_list \<noteq> []"
  shows "target_list_to_sparse_tensor target_list =
           Inr (all_indices target_list, np_array_ints (concat target_list),
                (length target_list, max_length target_list))"
  using max_column_all_indices[OF assms]
  by (simp add: target_list_to_sparse_tensor_def loop_result)

lemma sparse_tensor_no_labels:
  assumes "concat target_list = []"
  shows "target_list_to_sparse_tensor target_list = Inl ValueError"
  using assms
  by (simp add: target_list_to_sparse_tensor_def loop_result max_column_def
        all_indices_Nil_iff[symmetric] del: concat_eq_Nil_conv)


lemma row_indices_snoc:
  "row_indices i (t @ [v]) = row_indices i t @ [(i, length t)]"
  by (simp add: row_indices_def)

lemma length_row_indices: "length (row_indices i t) = length t"
  by (simp add: row_indices_def)

lemma scatter_row:
  assumes "i < length dense" and "length t \<le> length (dense ! i)"
  shows "fold (\<lambda>(p, v) dense. dense[fst p := (dense ! fst p)[snd p := v]])
           (zip (row_indices i t) t) dense
         = dense[i := t @ drop (length t) (dense ! i)]"
  using assms(2)
proof (induction t rule: rev_induct)
  case Nil
  then show ?case by (simp add: row_indices_def)
next
  case (snoc v t)
  then have len: "length t < length (dense ! i)" by simp
  have upd: "(t @ drop (length t) (dense ! i))[length t := v]
             = (t @ [v]) @ drop (Suc (length t)) (dense ! i)"
    using len by (simp add: list_update_append upd_conv_take_nth_drop)
  have split: "zip (row_indices i (t @ [v])) (t @ [v])
               = zip (row_indices i t) t @ [((i, length t), v)]"
    by (simp add: row_indices_snoc length_row_indices)
  from snoc len have before: "fold (\<lambda>(p, v) dense. dense[fst p := (dense ! fst p)[snd p := v]])
           (zip (row_indices i t) t) dense
         = dense[i := t @ drop (length t) (dense ! i)]"
    by simp
  show ?case
    unfolding split fold_append comp_apply before
    using assms(1) upd by simp
qed

lemma scatter_rows:
  assumes "length ts \<le> n" and "\<forall>t \<in> set ts. length t \<le> l"
  shows "fold (\<lambda>(p, v) dense. dense[fst p := (dense ! fst p)[snd p := v]])
           (zip (all_indices ts) (concat ts)) (replicate n (replicate l 0))
         = map (\<lambda>t. t @ replicate (l - length t) 0) ts
             @ replicate (n - length ts) (replicate l 0)"
  using assms
proof (induction ts rule: rev_induct)
  case Nil
  then show ?case by (simp add: all_indices_def)
next
  case (snoc t ts)
  let ?done = "map (\<lambda>t. t @ replicate (l - length t) 0) ts"
  let ?dense = "?done @ replicate (n - length ts) (replicate l 0)"
  have len: "length (all_indices ts) = length (concat ts)"
    by (simp add: length_all_indices length_concat)
  have i: "length ts < length ?dense" using snoc.prems by simp
  have row: "?dense ! length ts = replicate l 0"
    using snoc.prems by (simp add: nth_append)
  have t: "length t \<le> length (?dense ! length ts)"
    using snoc.prems by (simp add: row)
  have rest: "replicate (n - length ts) (replicate l (0::int))
              = replicate l 0 # replicate (n - Suc (length ts)) (replicate l 0)"
    using snoc.prems by (cases "n - length ts") (simp_all add: Suc_diff_Suc)
  have put: "?dense[length ts := x]
             = ?done @ x # replicate (n - Suc (length ts)) (replicate l 0)" for x
    by (simp add: list_update_append rest)
  have before: "fold (\<lambda>(p, v) dense. dense[fst p := (dense ! fst p)[snd p := v]])
           (zip (all_indices ts) (concat ts)) (replicate n (replicate l 0)) = ?dense"
    using snoc by simp
  have split: "zip (all_indices (ts @ [t])) (concat (ts @ [t]))
               = zip (all_indices ts) (concat ts) @ zip (row_indices (length ts) t) t"
    by (simp add: all_indices_snoc len)
  show ?case
    unfolding split fold_append comp_apply before scatter_row[OF i t] row put
    by simp
qed

lemma scatter_all_indices:
  "scatter (all_indices ts) (concat ts) (length ts, max_length ts) = zero_padded ts"
  using scatter_rows[of ts "length ts" "max_length ts"]
  by (simp add: scatter_def zero_padded_def max_length_ge)

lemma vals_parallel:
  assumes "k < length (all_indices ts)"
  shows "concat ts ! k = ts ! fst (all_indices ts ! k) ! snd (all_indices ts ! k)"
  using assms
proof (induction ts rule: rev_induct)
  case Nil
  then show ?case by (simp add: all_indices_def)
next
  case (snoc t ts)
  have len: "length (all_indices ts) = length (concat ts)"
    by (simp add: length_all_indices length_concat)
  show ?case
  proof (cases "k < length (all_indices ts)")
    case True
    then have "all_indices ts ! k \<in> set (all_indices ts)"
      by simp
    then have "fst (all_indices ts ! k) < length ts"
      unfolding set_all_indices by (simp add: case_prod_beta)
    with True snoc.IH len show ?thesis
      by (simp add: all_indices_snoc nth_append)
  next
    case False
    with snoc.prems have "k - length (concat ts) < length t"
      by (simp add: all_indices_snoc row_indices_def len)
    with False show ?thesis
      by (simp add: all_indices_snoc nth_append len row_indices_def)
  qed
qed

lemma np_array_ints_int64:
  assumes "vals \<noteq> []" and "\<forall>v \<in> set vals. - (2 ^ 63) \<le> v \<and> v < 2 ^ 63"
  shows "np_array_ints vals = Int64Array vals"
proof -
  have "\<not> (\<exists>v \<in> set vals. v < - (2 ^ 63) \<or> 2 ^ 64 \<le> v)"
  proof
    assume "\<exists>v \<in> set vals. v < - (2 ^ 63) \<or> 2 ^ 64 \<le> v"
    then obtain v where v: "v \<in> set vals" "v < - (2 ^ 63) \<or> 2 ^ 64 \<le> v" by blast
    with assms(2) have "- (2 ^ 63) \<le> v" "v < 2 ^ 63" by simp_all
    with v(2) show False by simp
  qed
  moreover have "\<forall>v \<in> set vals. v < 2 ^ 63" using assms(2) by simp
  ultimately show ?thesis
    using assms(1) unfolding np_array_ints_def by simp
qed

lemma large_label_rounded: "round_float64 9223372036854775809 = 9223372036854775808"
  by code_simp

lemma np_array_ints_promoted:
  "np_array_ints [9223372036854775809, 1] = Float64Array [9223372036854775808, 1]"
  by (simp add: np_array_ints_def large_label_rounded one_is_double)

text \<open>
  Claim C2, as stated, at the single sequence of the non-negative labels \<open>2^63 + 1\<close> and
  \<open>1\<close>: the values returned are the \<^verbatim>\<open>float64\<close> numbers \<open>2^63\<close> and \<open>1\<close>, not the
  labels.
\<close>

theorem sparse_tensor_large_labels:
  "(0 :: int) \<le> 9223372036854775809 \<and> (0 :: int) \<le> 1
   \<and> target_list_to_sparse_tensor [[9223372036854775809, 1]]
       = Inr ([(0, 0), (0, 1)], Float64Array [9223372036854775808, 1], (1, 2))
   \<and> (9223372036854775808 :: rat) \<noteq> 9223372036854775809"
  by (simp add: target_list_to_sparse_tensor_def max_column_def np_array_ints_promoted)

text \<open>
  Claim C2, amended to labels that fit the \<^verbatim>\<open>int64\<close> range (in particular to
  non-negative labels below \<open>2^63\<close>): for a non-empty list of non-empty sequences of such
  labels, \<^verbatim>\<open>target_list_to_sparse_tensor\<close> returns the index pairs (sequence index,
  position), one per label, in increasing order of sequence index and then position;
  the label values, unchanged, in the same order, the \<open>k\<close>-th value being the label at
  the \<open>k\<close>-th index pair; as many index pairs as values, namely the sum of the sequence
  lengths; and the shape (number of sequences, maximum sequence length). Scattering the
  values at the indices into a zero-filled array of that shape gives the zero-padded
  sequences.
\<close>

theorem sparse_tensor_encoding:
  assumes "target_list \<noteq> []" and "\<forall>target \<in> set target_list. target \<noteq> []"
    and "\<forall>target \<in> set target_list. \<forall>label \<in> set target. - (2 ^ 63) \<le> label \<and> label < 2 ^ 63"
  shows "target_list_to_sparse_tensor target_list
           = Inr (all_indices target_list, Int64Array (concat target_list),
                  (length target_list, max_length target_list))
         \<and> sorted_wrt index_less (all_indices target_list)
         \<and> (\<forall>k < length (all_indices target_list).
               concat target_list ! k
                 = target_list ! fst (all_indices target_list ! k) ! snd (all_indices target_list ! k))
         \<and> length (all_indices target_list) = length (concat target_list)
         \<and> length (concat target_list) = sum_list (map length target_list)
         \<and> scatter (all_indices target_list) (concat target_list)
                   (length target_list, max_length target_list)
             = zero_padded target_list"
proof -
  from assms have ne: "concat target_list \<noteq> []" by (cases target_list) auto
  have "\<forall>v \<in> set (concat target_list). - (2 ^ 63) \<le> v \<and> v < 2 ^ 63"
    using assms(3) by auto
  with ne have "np_array_ints (concat target_list) = Int64Array (concat target_list)"
    by (rule np_array_ints_int64)
  with ne show ?thesis
    using sparse_tensor_result[of target_list] sorted_all_indices[of target_list]
      scatter_all_indices[of target_list] vals_parallel[of _ target_list]
      length_all_indices[of target_list]
    by (simp add: length_concat)
qed

text \<open>
  Claim C2, the amended theorem at the two sequences \<open>[5,0,7]\<close> and \<open>[3]\<close>: four index
  pairs, four values, shape (2, 3), and the decoded array is the input padded with zeros.
\<close>

theorem sparse_tensor_encoding_witness:
  "target_list_to_sparse_tensor [[5, 0, 7], [3]]
     = Inr ([(0, 0), (0, 1), (0, 2), (1, 0)], Int64Array [5, 0, 7, 3], (2, 3))
   \<and> scatter [(0, 0), (0, 1), (0, 2), (1, 0)] [5, 0, 7, 3] (2, 3) = [[5, 0, 7], [3, 0, 0]]"
proof -
  have idx: "all_indices [[5, 0, 7], [3]] = [(0, 0), (0, 1), (0, 2), (1, 0)]"
    by (simp add: all_indices_def row_indices_def enumerate_eq_zip upt_rec)
  have ml: "max_length [[5, 0, 7], [3]] = 3"
    by (simp add: max_length_def)
  have pad: "zero_padded [[5, 0, 7], [3]] = [[5, 0, 7], [3, 0, 0]]"
    by (simp add: zero_padded_def ml numeral_eq_Suc)
  have hyp: "[[5, 0, 7], [3]] \<noteq> ([] :: int list list)"
    "\<forall>target \<in> set [[5, 0, 7], [3 :: int]]. target \<noteq> []"
    "\<forall>target \<in> set [[5, 0, 7], [3 :: int]]. \<forall>label \<in> set target.
        - (2 ^ 63) \<le> label \<and> label < 2 ^ 63"
    by simp_all
  from sparse_tensor_encoding[OF hyp]
  have "target_list_to_sparse_tensor [[5, 0, 7], [3]]
          = Inr (all_indices [[5, 0, 7], [3]], Int64Array (concat [[5, 0, 7], [3]]),
                 (length [[5, 0, 7], [3 :: int]], max_length [[5, 0, 7], [3]]))"
    and "scatter (all_indices [[5, 0, 7], [3]]) (concat [[5, 0, 7], [3]])
                 (length [[5, 0, 7], [3 :: int]], max_length [[5, 0, 7], [3]])
          = zero_padded [[5, 0, 7], [3]]"
    by blast+
  moreover have "length [[5, 0, 7], [3 :: int]] = 2" "concat [[5, 0, 7], [3 :: int]] = [5, 0, 7, 3]"
    by simp_all
  ultimately show ?thesis
    unfolding idx ml pad by (simp only:)
qed

text \<open>
  Claim C7, as stated, at a list with one empty sequence beside a non-empty one: the
  function returns a triple, it does not fail.
\<close>

theorem sparse_tensor_some_empty:
  "[] \<in> set [[1, 2], [] :: int list]
   \<and> target_list_to_sparse_tensor [[1, 2], []]
       = Inr ([(0, 0), (0, 1)], Int64Array [1, 2], (2, 2))"
  by (simp add: target_list_to_sparse_tensor_def max_column_def np_array_ints_def)

text \<open>
  Claim C7, amended: \<^verbatim>\<open>target_list_to_sparse_tensor\<close> fails exactly when every label
  sequence is empty (the empty list of sequences included): then no index pair is
  produced and the maximum over the empty index array raises \<^verbatim>\<open>ValueError\<close>. With at
  least one label it returns the triple of the index pairs of all labels, the array of
  the labels and the shape (number of sequences, maximum sequence length), also when
  some of the sequences are empty.
\<close>

theorem sparse_tensor_fails_iff:
  "target_list_to_sparse_tensor target_list
     = (if \<forall>target \<in> set target_list. target = [] then Inl ValueError
        else Inr (all_indices target_list, np_array_ints (concat target_list),
                  (length target_list, max_length target_list)))"
proof (cases "concat target_list = []")
  case True
  then show ?thesis using sparse_tensor_no_labels[OF True] by simp
next
  case False
  then show ?thesis using sparse_tensor_result[OF False] by simp
qed

text \<open>
  Claim C7, the amended theorem at two lists: two empty sequences fail, an empty
  sequence after a non-empty one gives the triple of the one label.
\<close>

theorem sparse_tensor_fails_iff_witness:
  "target_list_to_sparse_tensor [[], []] = Inl ValueError
   \<and> target_list_to_sparse_tensor [[4], []] = Inr ([(0, 0)], Int64Array [4], (2, 1))"
proof -
  have idx: "all_indices [[4], []] = [(0, 0)]"
    by (simp add: all_indices_def row_indices_def enumerate_eq_zip upt_rec)
  have ml: "max_length [[4], []] = 1"
    by (simp add: max_length_def)
  have arr: "np_array_ints [4] = Int64Array [4]"
    by (simp add: np_array_ints_def)
  have "target_list_to_sparse_tensor [[], []] = Inl ValueError"
    using sparse_tensor_fails_iff[of "[[], []]"] by simp
  moreover have "target_list_to_sparse_tensor [[4], []] = Inr ([(0, 0)], Int64Array [4], (2, 1))"
    using sparse_tensor_fails_iff[of "[[4], []]"] by (simp add: idx ml arr)
  ultimately show ?thesis by blast
qed

section \<open>Properties of arrays and \<^verbatim>\<open>zero_pad\<close>\<close>

lemma concat_chunks_take:
  "concat (map (\<lambda>k. chunk R k d) [0..<n]) = take (n * R) d"
proof (induction n)
  case 0
  then show ?case by simp
next
  case (Suc n)
  have "take (n * R) d @ take R (drop (n * R) d) = take (n * R + R) d"
    by (simp add: take_add)
  with Suc show ?case by (simp add: chunk_def add.commute)
qed

lemma concat_chunks:
  assumes "length d = n * R"
  shows "concat (map (\<lambda>k. chunk R k d) [0..<n]) = d"
  using assms by (simp add: concat_chunks_take)

lemma length_concat_equal:
  assumes "\<And>k. k < n \<Longrightarrow> length (f k) = R"
  shows "length (concat (map f [0..<n])) = n * R"
  using assms by (induction n) simp_all

lemma chunk_concat:
  assumes len: "\<And>k. k < n \<Longrightarrow> length (f k) = R" and j: "j < n"
  shows "chunk R j (concat (map f [0..<n])) = f j"
proof -
  have "[0..<j + (n - j)] = [0..<j] @ [j..<j + (n - j)]"
    by (rule upt_add_eq_append) simp
  moreover have "[j..<n] = j # [Suc j..<n]"
    using j by (rule upt_conv_Cons)
  ultimately have split: "[0..<n] = [0..<j] @ j # [Suc j..<n]"
    using j by simp
  have pre: "length (concat (map f [0..<j])) = j * R"
    using len j by (intro length_concat_equal) simp
  have "length (f j) = R" using len j by simp
  then show ?thesis
    unfolding chunk_def split using pre by simp
qed

lemma length_chunk:
  assumes "length d = n * R" and "k < n"
  shows "length (chunk R k d) = R"
proof -
  have "Suc k * R \<le> n * R" using assms(2) by (intro mult_le_mono1) simp
  then show ?thesis using assms(1) by (simp add: chunk_def)
qed

lemma broadcast_data_same:
  assumes "length d = prod_list s"
  shows "broadcast_data s s d = d"
  using assms
proof (induction s arbitrary: d)
  case Nil
  then show ?case by simp
next
  case (Cons t ts)
  have "broadcast_data ts ts (chunk (prod_list ts) k d) = chunk (prod_list ts) k d"
    if "k < t" for k
    using Cons.prems that by (intro Cons.IH length_chunk[of d t]) simp_all
  then have eq: "map (\<lambda>k. broadcast_data ts ts (chunk (prod_list ts) k d)) [0..<t]
             = map (\<lambda>k. chunk (prod_list ts) k d) [0..<t]"
    by simp
  have "broadcast_data (t # ts) (t # ts) d
        = concat (map (\<lambda>k. broadcast_data ts ts (chunk (prod_list ts) k d)) [0..<t])"
    by simp
  also have "\<dots> = concat (map (\<lambda>k. chunk (prod_list ts) k d) [0..<t])"
    by (simp only: eq)
  also have "\<dots> = d"
    using Cons.prems by (intro concat_chunks) simp
  finally show ?case .
qed

lemma strip_leading_ones_same: "length s \<le> k \<Longrightarrow> strip_leading_ones k s = s"
  by (cases s) simp_all

lemma broadcast_to_same:
  assumes "valid v" and "shape v = s"
  shows "broadcast_to v s = Inr (data v)"
  using assms
  by (simp add: broadcast_to_def strip_leading_ones_same list_all2_same
      broadcast_data_same valid_def)

lemma valid_astype: "valid (astype convert a) = valid a"
  by (simp add: valid_def astype_def)

lemma shape_astype: "shape (astype convert a) = shape a"
  by (simp add: astype_def)

lemma chunk_map: "chunk R k (map f xs) = map f (chunk R k xs)"
  by (simp add: chunk_def take_map drop_map)

lemma set_chunk: "set (chunk R k xs) \<subseteq> set xs"
  unfolding chunk_def by (meson set_take_subset set_drop_subset subset_trans)

lemma astype_unchanged:
  assumes "\<forall>x \<in> set (data a). convert x = x"
  shows "astype convert a = a"
proof (rule ndarray.equality)
  show "data (astype convert a) = data a"
    using assms by (simp add: astype_def map_idI)
qed (simp_all add: astype_def)

lemma zero_pad_result:
  assumes "valid matrix" and "shape matrix = n # rest" and "int n \<le> to_length"
  shows "zero_pad to_float64 matrix to_length =
           Inr \<lparr>shape = nat to_length # rest,
                data = map to_float64 (data matrix)
                         @ replicate ((nat to_length - n) * prod_list rest) 0\<rparr>"
proof -
  have "n \<le> nat to_length" using assms(3) by simp
  then have m: "min n (nat to_length) = n" by simp
  have v: "valid (astype to_float64 matrix)" "shape (astype to_float64 matrix) = n # rest"
    using assms(1,2) by (simp_all add: valid_astype shape_astype)
  have "nat to_length * prod_list rest - n * prod_list rest = (nat to_length - n) * prod_list rest"
    by (simp add: diff_mult_distrib)
  moreover have "length (data matrix) = n * prod_list rest"
    using assms(1,2) by (simp add: valid_def)
  ultimately show ?thesis
    using assms broadcast_to_same[OF v]
    by (simp add: zero_pad_def set_prefix_def np_zeros_def m astype_def)
qed

lemma int64_rounded: "round_float64 9007199254740993 = 9007199254740992"
  by code_simp

text \<open>
  Claim C4, as stated, at an \<^verbatim>\<open>int64\<close> array with the one entry \<open>2^53 + 1\<close>, padded to
  its own length 1: the conversion to \<^verbatim>\<open>float64\<close> rounds the entry to \<open>2^53\<close>, so the
  result differs from the input and slicing it back does not reproduce the input.
\<close>

theorem zero_pad_int64_rounded:
  "valid \<lparr>shape = [1], data = [9007199254740993 :: rat]\<rparr>
   \<and> zero_pad round_float64 \<lparr>shape = [1], data = [9007199254740993]\<rparr> 1
       = Inr \<lparr>shape = [1], data = [9007199254740992]\<rparr>
   \<and> slice_prefix \<lparr>shape = [1], data = [9007199254740992 :: rat]\<rparr> 1
       \<noteq> \<lparr>shape = [1], data = [9007199254740993]\<rparr>
   \<and> \<lparr>shape = [1], data = [9007199254740992 :: rat]\<rparr>
       \<noteq> \<lparr>shape = [1], data = [9007199254740993]\<rparr>"
  by (simp add: valid_def zero_pad_def set_prefix_def broadcast_to_def np_zeros_def chunk_def
      astype_def slice_prefix_def int64_rounded)

text \<open>
  Claim C4, amended for the conversion to \<^verbatim>\<open>float64\<close>: for an array whose first
  dimension \<open>n\<close> is at most the target length, \<^verbatim>\<open>zero_pad\<close> returns an array of that
  length in the first dimension and the same trailing dimensions; its first \<open>n\<close>
  sub-arrays are those of the input converted to \<^verbatim>\<open>float64\<close>, the remaining ones are
  zero (the padding is at the end); slicing the result back to \<open>n\<close> gives the converted
  input, and padding to the length the array already has returns the converted input.
  When the conversion changes no element (a \<^verbatim>\<open>float64\<close> input, or numbers that are
  doubles), the first \<open>n\<close> sub-arrays are the input's, slicing back reproduces the input
  and padding to the existing length is the identity.
\<close>

theorem zero_pad_end:
  fixes to_float64 :: "'a \<Rightarrow> 'a::zero"
  assumes "valid matrix" and "shape matrix = n # rest" and "int n \<le> to_length"
  shows "\<exists>result. zero_pad to_float64 matrix to_length = Inr result
           \<and> shape result = nat to_length # rest
           \<and> (\<forall>i < n. item result i = astype to_float64 (item matrix i))
           \<and> (\<forall>i. n \<le> i \<and> i < nat to_length \<longrightarrow> item result i = np_zeros rest)
           \<and> slice_prefix result n = astype to_float64 matrix
           \<and> (int n = to_length \<longrightarrow> result = astype to_float64 matrix)
           \<and> ((\<forall>x \<in> set (data matrix). to_float64 x = x) \<longrightarrow>
                 (\<forall>i < n. item result i = item matrix i)
                 \<and> slice_prefix result n = matrix
                 \<and> (int n = to_length \<longrightarrow> result = matrix))"
proof -
  define R where "R = prod_list rest"
  define L where "L = nat to_length"
  define converted where "converted = map to_float64 (data matrix)"
  define result where
    "result = \<lparr>shape = L # rest, data = converted @ replicate ((L - n) * R) 0\<rparr>"
  have nL: "n \<le> L" using assms(3) by (simp add: L_def)
  have len: "length converted = n * R"
    using assms(1,2) by (simp add: valid_def R_def converted_def)
  have res: "zero_pad to_float64 matrix to_length = Inr result"
    unfolding result_def L_def R_def converted_def by (rule zero_pad_result[OF assms])
  have shp: "shape result = L # rest" by (simp add: result_def)
  have dat: "data result = converted @ replicate ((L - n) * R) 0" by (simp add: result_def)
  have rows: "item result i = astype to_float64 (item matrix i)" if "i < n" for i
  proof -
    have "Suc i * R \<le> n * R" using that by (intro mult_le_mono1) simp
    then have "i * R + R \<le> length converted" using len by simp
    then have "chunk R i (data result) = chunk R i converted"
      by (simp add: chunk_def dat)
    also have "\<dots> = map to_float64 (chunk R i (data matrix))"
      by (simp add: converted_def chunk_map)
    finally show ?thesis
      using assms(2) by (simp add: item_def shp R_def astype_def)
  qed
  have zeros: "item result i = np_zeros rest" if "n \<le> i" "i < L" for i
  proof -
    have a: "n * R \<le> i * R" using that(1) by (intro mult_le_mono1)
    have "Suc (i - n) \<le> L - n" using that by simp
    then have "Suc (i - n) * R \<le> (L - n) * R" by (intro mult_le_mono1)
    then have b: "R \<le> (L - n) * R - (i * R - n * R)"
      by (simp add: diff_mult_distrib)
    have "drop (i * R) (data result) = replicate ((L - n) * R - (i * R - n * R)) 0"
      using a len by (simp add: dat)
    then have "chunk R i (data result) = replicate R 0"
      using b by (simp add: chunk_def min_absorb1)
    then show ?thesis
      by (simp add: item_def shp np_zeros_def R_def)
  qed
  have slice: "slice_prefix result n = astype to_float64 matrix"
  proof (rule ndarray.equality)
    show "shape (slice_prefix result n) = shape (astype to_float64 matrix)"
      using nL assms(2) by (simp add: slice_prefix_def shp astype_def)
    show "data (slice_prefix result n) = data (astype to_float64 matrix)"
      using nL len by (simp add: slice_prefix_def shp dat R_def astype_def converted_def)
  qed simp
  have same: "result = astype to_float64 matrix" if "int n = to_length"
  proof (rule ndarray.equality)
    from that have "L = n" by (simp add: L_def)
    then show "shape result = shape (astype to_float64 matrix)"
      "data result = data (astype to_float64 matrix)"
      using assms(2) by (simp_all add: shp dat astype_def converted_def)
  qed simp
  have fixed: "(\<forall>i < n. item result i = item matrix i)
               \<and> slice_prefix result n = matrix
               \<and> (int n = to_length \<longrightarrow> result = matrix)"
    if unchanged: "\<forall>x \<in> set (data matrix). to_float64 x = x"
  proof (intro conjI allI impI)
    have whole: "astype to_float64 matrix = matrix"
      using unchanged by (rule astype_unchanged)
    have part: "astype to_float64 (item matrix i) = item matrix i" for i
    proof (rule astype_unchanged)
      have "set (data (item matrix i)) \<subseteq> set (data matrix)"
        by (simp add: item_def set_chunk)
      with unchanged show "\<forall>x \<in> set (data (item matrix i)). to_float64 x = x"
        by blast
    qed
    show "item result i = item matrix i" if "i < n" for i
      using rows[OF that] part[of i] by (rule trans)
    show "slice_prefix result n = matrix"
      using slice whole by (rule trans)
    show "result = matrix" if "int n = to_length"
      using same[OF that] whole by (rule trans)
  qed
  show ?thesis
    unfolding L_def[symmetric]
  proof (rule exI[of _ result], intro conjI)
    show "zero_pad to_float64 matrix to_length = Inr result"
      by (rule res)
    show "shape result = L # rest"
      by (rule shp)
    show "\<forall>i < n. item result i = astype to_float64 (item matrix i)"
      using rows by blast
    show "\<forall>i. n \<le> i \<and> i < L \<longrightarrow> item result i = np_zeros rest"
      using zeros by blast
    show "slice_prefix result n = astype to_float64 matrix"
      by (rule slice)
    show "int n = to_length \<longrightarrow> result = astype to_float64 matrix"
      using same by blast
    show "(\<forall>x \<in> set (data matrix). to_float64 x = x) \<longrightarrow>
            (\<forall>i < n. item result i = item matrix i)
            \<and> slice_prefix result n = matrix
            \<and> (int n = to_length \<longrightarrow> result = matrix)"
      using fixed by blast
  qed
qed

text \<open>
  Claim C4, the amended theorem at a \<open>1 \<times> 2\<close> \<^verbatim>\<open>float64\<close> array, which the conversion
  leaves as it is: padded to length 3 it gains two zero rows at the end, slicing back
  gives the array, and padding to length 1 changes nothing.
\<close>

theorem zero_pad_end_witness:
  "zero_pad (\<lambda>x. x) \<lparr>shape = [1, 2], data = [5, 6 :: rat]\<rparr> 3
     = Inr \<lparr>shape = [3, 2], data = [5, 6, 0, 0, 0, 0]\<rparr>
   \<and> slice_prefix \<lparr>shape = [3, 2], data = [5, 6, 0, 0, 0, 0 :: rat]\<rparr> 1
       = \<lparr>shape = [1, 2], data = [5, 6]\<rparr>
   \<and> zero_pad (\<lambda>x. x) \<lparr>shape = [1, 2], data = [5, 6 :: rat]\<rparr> 1
       = Inr \<lparr>shape = [1, 2], data = [5, 6]\<rparr>"
proof -
  let ?m = "\<lparr>shape = [1, 2], data = [5, 6 :: rat]\<rparr>"
  have v: "valid ?m" "shape ?m = 1 # [2]" by (simp_all add: valid_def)
  have u: "\<forall>x \<in> set (data ?m). (\<lambda>x. x) x = x" by simp
  from zero_pad_end[OF v, of 3 "\<lambda>x. x"] u obtain result where
    r: "zero_pad (\<lambda>x. x) ?m 3 = Inr result" "slice_prefix result 1 = ?m"
    by auto
  have e: "zero_pad (\<lambda>x. x) ?m 3 = Inr \<lparr>shape = [3, 2], data = [5, 6, 0, 0, 0, 0]\<rparr>"
    by (simp add: zero_pad_def set_prefix_def broadcast_to_def np_zeros_def chunk_def
        astype_def numeral_eq_Suc)
  from zero_pad_end[OF v, of 1 "\<lambda>x. x"] u obtain result' where
    r': "zero_pad (\<lambda>x. x) ?m 1 = Inr result'" "result' = ?m"
    by auto
  from r e r' show ?thesis by simp
qed

section \<open>Properties of \<^verbatim>\<open>load_batch_x\<close>\<close>

lemma comprehension_shape0:
  assumes "comprehension shape0 utterances = Inr utter_lens"
  shows "utter_lens = map (\<lambda>u. hd (shape u)) utterances \<and> (\<forall>u \<in> set utterances. shape u \<noteq> [])"
  using assms
proof (induction utterances arbitrary: utter_lens)
  case Nil
  then show ?case by simp
next
  case (Cons u rest)
  then show ?case
    by (auto simp: shape0_def split: sum.splits list.splits)
qed

lemma comprehension_shape0_ok:
  assumes "\<forall>u \<in> set utterances. shape u \<noteq> []"
  shows "comprehension shape0 utterances = Inr (map (\<lambda>u. hd (shape u)) utterances)"
  using assms
  by (induction utterances) (auto simp: shape0_def split: list.splits)

lemma comprehension_load:
  assumes "map fs path_batch = map Some utterances"
  shows "comprehension (np_load fs) path_batch = Inr utterances"
  using assms
  by (induction path_batch arbitrary: utterances) (auto simp: np_load_def)

lemma comprehension_length:
  assumes "comprehension f xs = Inr ys"
  shows "length ys = length xs"
  using assms
  by (induction xs arbitrary: ys) (auto split: sum.splits)

lemma py_max_ge:
  assumes "py_max xs = Inr m"
  shows "\<forall>x \<in> set xs. x \<le> m"
proof (cases xs)
  case Nil
  then show ?thesis by simp
next
  case (Cons x rest)
  with assms have "m = Max (set (x # rest))"
    using Max.set_eq_fold[of x rest] by (simp add: py_max_def)
  then show ?thesis using Cons by simp
qed

lemma broadcast_to_error: "broadcast_to v s = Inl e \<Longrightarrow> e = ValueError"
  by (simp add: broadcast_to_def Let_def split: if_splits)

lemma set_prefix_no_assert: "set_prefix a n v \<noteq> Inl AssertionError"
  by (auto simp: set_prefix_def split: list.splits sum.splits dest: broadcast_to_error)

lemma set_item_no_assert: "set_item a i v \<noteq> Inl AssertionError"
  by (auto simp: set_item_def split: list.splits sum.splits dest: broadcast_to_error)

lemma zero_pad_no_assert:
  assumes "shape utt = n # rest" and "n \<le> max_len"
  shows "zero_pad to_float64 utt (int max_len) \<noteq> Inl AssertionError"
  using assms by (simp add: zero_pad_def set_prefix_no_assert)

lemma fill_batch_no_assert:
  assumes "\<forall>utt \<in> set utterances. zero_pad to_float64 utt (int max_len) \<noteq> Inl AssertionError"
  shows "fill_batch to_float64 batch i utterances max_len \<noteq> Inl AssertionError"
  using assms
proof (induction utterances arbitrary: batch i)
  case Nil
  then show ?case by simp
next
  case (Cons utt rest)
  then show ?case
    by (auto simp: set_item_no_assert split: sum.splits)
qed

lemma np_swapaxes01_error: "np_swapaxes01 a = Inl e \<Longrightarrow> e = AxisError"
  by (auto simp: np_swapaxes01_def split: list.splits)

lemma iter_rows_error: "iter_rows a = Inl e \<Longrightarrow> e = TypeError"
  by (auto simp: iter_rows_def split: list.splits)

lemma np_concatenate_axis1_error:
  "np_concatenate_axis1 arrays = Inl e \<Longrightarrow> e = ValueError \<or> e = AxisError"
  by (auto simp: np_concatenate_axis1_def split: list.splits if_splits)

lemma np_array_error: "np_array arrays = Inl e \<Longrightarrow> e = ValueError"
  by (auto simp: np_array_def split: list.splits if_splits)

lemma np_transpose102_error: "np_transpose102 a = Inl e \<Longrightarrow> e = ValueError \<or> e = AxisError"
  by (auto simp: np_transpose102_def split: if_splits dest: np_swapaxes01_error)

lemma collapse_loop_no_assert: "collapse_loop utterances new_batch_x \<noteq> Inl AssertionError"
proof (induction utterances arbitrary: new_batch_x)
  case Nil
  then show ?case by simp
next
  case (Cons utterance rest)
  then show ?case
    by (auto split: sum.splits
        dest: np_swapaxes01_error iter_rows_error np_concatenate_axis1_error)
qed

lemma collapse_no_assert: "collapse batch_x time_major \<noteq> Inl AssertionError"
  using collapse_loop_no_assert
  by (auto simp: collapse_def split: sum.splits
      dest: iter_rows_error np_array_error np_transpose102_error)

lemma calls_satisfy_assertion:
  assumes "comprehension shape0 utterances = Inr utter_lens" and "py_max utter_lens = Inr max_len"
    and "utt \<in> set utterances"
  shows "\<exists>n rest. shape utt = n # rest \<and> int n \<le> int max_len
           \<and> zero_pad to_float64 utt (int max_len) \<noteq> Inl AssertionError"
proof -
  from comprehension_shape0[OF assms(1)] assms(3)
  have lens: "utter_lens = map (\<lambda>u. hd (shape u)) utterances" and ne: "shape utt \<noteq> []"
    by simp_all
  then obtain n rest where shp: "shape utt = n # rest" by (cases "shape utt") auto
  with lens assms(3) have "n \<in> set utter_lens" by force
  with py_max_ge[OF assms(2)] have "n \<le> max_len" by simp
  with shp zero_pad_no_assert[OF shp this] show ?thesis by simp
qed


text \<open>
  Claim C10: the assertion of \<^verbatim>\<open>zero_pad\<close> holds at every call that
  \<^verbatim>\<open>load_batch_x\<close> makes, because \<^verbatim>\<open>max_len\<close> is the maximum of the first
  dimensions: no run of \<^verbatim>\<open>load_batch_x\<close> ends in \<^verbatim>\<open>AssertionError\<close>, and whenever
  the arrays are loaded, their lengths read and the maximum taken, every array has a
  first dimension of at most \<^verbatim>\<open>max_len\<close>.
\<close>

theorem zero_pad_assertion_unreachable:
  fixes to_float64 :: "'a \<Rightarrow> 'b::zero" and fs :: "string \<rightharpoonup> 'a ndarray"
  shows "load_batch_x to_float64 fs path_batch flatten time_major \<noteq> Inl AssertionError
   \<and> (\<forall>utterances utter_lens max_len.
         comprehension (np_load fs) path_batch = Inr utterances
         \<longrightarrow> comprehension shape0 utterances = Inr utter_lens
         \<longrightarrow> py_max utter_lens = Inr max_len
         \<longrightarrow> (\<forall>utt \<in> set utterances.
                \<exists>n rest. shape utt = n # rest \<and> int n \<le> int max_len
                  \<and> zero_pad to_float64 utt (int max_len) \<noteq> Inl AssertionError))"
proof -
  have calls: "\<forall>utt \<in> set utterances. zero_pad to_float64 utt (int max_len) \<noteq> Inl AssertionError"
    if "comprehension shape0 utterances = Inr utter_lens" "py_max utter_lens = Inr max_len"
    for utterances :: "'a ndarray list" and utter_lens max_len
    using calls_satisfy_assertion[OF that] by blast
  have "load_batch_x to_float64 fs path_batch flatten time_major \<noteq> Inl AssertionError"
  proof
    assume err: "load_batch_x to_float64 fs path_batch flatten time_major = Inl AssertionError"
    show False
    proof (cases "comprehension (np_load fs) path_batch")
      case (Inl e)
      then have "e \<noteq> AssertionError"
        by (induction path_batch) (auto simp: np_load_def split: option.splits sum.splits)
      with Inl err show False by (simp add: load_batch_x_def)
    next
      case utts: (Inr utterances)
      show False
      proof (cases "comprehension shape0 utterances")
        case (Inl e)
        then have "e \<noteq> AssertionError"
          by (induction utterances) (auto simp: shape0_def split: list.splits sum.splits)
        with Inl utts err show False by (simp add: load_batch_x_def)
      next
        case lens: (Inr utter_lens)
        show False
        proof (cases "py_max utter_lens")
          case (Inl e)
          then have "e \<noteq> AssertionError" by (auto simp: py_max_def split: list.splits)
          with Inl utts lens err show False by (simp add: load_batch_x_def)
        next
          case mx: (Inr max_len)
          note fill = fill_batch_no_assert[OF calls[OF lens mx]]
          from err utts lens mx fill collapse_no_assert show False
            by (auto simp: load_batch_x_def py_index_def split: if_splits sum.splits)
        qed
      qed
    qed
  qed
  then show ?thesis
    using calls_satisfy_assertion by blast
qed

text \<open>
  Claim C10 at two files holding arrays of 1 and 2 rows: the batch is built, and the
  call of \<^verbatim>\<open>zero_pad\<close> on the shorter array with the maximum 2 passes the assertion.
\<close>

theorem zero_pad_assertion_unreachable_witness:
  "load_batch_x (\<lambda>x. x) [''a.npy'' \<mapsto> \<lparr>shape = [1, 2], data = [1, 2 :: rat]\<rparr>,
                 ''b.npy'' \<mapsto> \<lparr>shape = [2, 2], data = [3, 4, 5, 6]\<rparr>]
       [''a.npy'', ''b.npy''] False False \<noteq> Inl AssertionError
   \<and> zero_pad (\<lambda>x. x) \<lparr>shape = [1, 2], data = [1, 2 :: rat]\<rparr> 2 \<noteq> Inl AssertionError"
proof -
  let ?a = "\<lparr>shape = [1, 2], data = [1, 2 :: rat]\<rparr>"
  let ?b = "\<lparr>shape = [2, 2], data = [3, 4, 5, 6 :: rat]\<rparr>"
  let ?fs = "[''a.npy'' \<mapsto> ?a, ''b.npy'' \<mapsto> ?b]"
  note inst = zero_pad_assertion_unreachable[of "\<lambda>x :: rat. x" ?fs "[''a.npy'', ''b.npy'']"
      False False]
  have 1: "comprehension (np_load ?fs) [''a.npy'', ''b.npy''] = Inr [?a, ?b]"
    by (simp add: np_load_def)
  have 2: "comprehension shape0 [?a, ?b] = Inr [1, 2]"
    by (simp add: shape0_def)
  have 3: "py_max [1, 2] = Inr 2"
    by (simp add: py_max_def)
  from inst 1 2 3 have "\<forall>utt \<in> set [?a, ?b]. \<exists>n rest. shape utt = n # rest \<and> int n \<le> int 2
                  \<and> zero_pad (\<lambda>x. x) utt (int 2) \<noteq> Inl AssertionError"
    by blast
  then have "zero_pad (\<lambda>x. x) ?a 2 \<noteq> Inl AssertionError" by simp
  with inst show ?thesis by blast
qed

lemma zero_pad_valid:
  assumes "valid utt" and "shape utt = n # rest" and "n \<le> max_len"
  shows "\<exists>padded. zero_pad to_float64 utt (int max_len) = Inr padded \<and> valid padded
           \<and> shape padded = max_len # rest"
proof -
  have len: "length (data utt) = n * prod_list rest"
    using assms(1,2) by (simp add: valid_def)
  have "n * prod_list rest + (max_len - n) * prod_list rest = max_len * prod_list rest"
    using assms(3) by (simp add: add_mult_distrib[symmetric])
  with len show ?thesis
    using zero_pad_result[OF assms(1,2), of "int max_len" to_float64] assms(3)
    by (simp add: valid_def)
qed

lemma set_item_valid:
  assumes "valid batch" and "shape batch = N # s" and "i < N"
    and "valid padded" and "shape padded = s"
  shows "\<exists>batch'. set_item batch i padded = Inr batch' \<and> valid batch'
           \<and> shape batch' = shape batch"
proof -
  let ?R = "prod_list s"
  have lb: "length (data batch) = N * ?R" using assms(1,2) by (simp add: valid_def)
  have lp: "length (data padded) = ?R" using assms(4,5) by (simp add: valid_def)
  have le: "Suc i * ?R \<le> N * ?R" using assms(3) by (intro mult_le_mono1) simp
  have "i * ?R \<le> N * ?R" using assms(3) by (intro mult_le_mono1) simp
  then have "min (N * ?R) (i * ?R) = i * ?R" by simp
  moreover have "i * ?R + (?R + (N * ?R - Suc i * ?R)) = N * ?R"
    using le by simp
  ultimately show ?thesis
    using assms(2,3) broadcast_to_same[OF assms(4,5)] lb lp
    by (simp add: set_item_def valid_def)
qed

lemma fill_batch_ok:
  assumes "valid batch" and "shape batch = N # max_len # rest"
    and "i + length utterances \<le> N"
    and "\<forall>utt \<in> set utterances. valid utt \<and> (\<exists>n. shape utt = n # rest \<and> n \<le> max_len)"
  shows "\<exists>batch'. fill_batch to_float64 batch i utterances max_len = Inr batch' \<and> valid batch'
           \<and> shape batch' = shape batch"
  using assms
proof (induction utterances arbitrary: batch i)
  case Nil
  then show ?case by simp
next
  case (Cons utt others)
  from Cons.prems(4) obtain n where utt: "valid utt" "shape utt = n # rest" "n \<le> max_len"
    by auto
  from zero_pad_valid[OF utt] obtain padded where
    padded: "zero_pad to_float64 utt (int max_len) = Inr padded" "valid padded" "shape padded = max_len # rest"
    by blast
  have "i < N" using Cons.prems(3) by simp
  from set_item_valid[OF Cons.prems(1,2) this padded(2,3)] obtain batch' where
    b: "set_item batch i padded = Inr batch'" "valid batch'" "shape batch' = shape batch"
    by blast
  have "\<exists>b'. fill_batch to_float64 batch' (Suc i) others max_len = Inr b' \<and> valid b'
           \<and> shape b' = shape batch'"
    using Cons.prems b by (intro Cons.IH) simp_all
  with padded b show ?case by simp
qed

lemma valid_np_zeros: "valid (np_zeros shp)"
  by (simp add: valid_def np_zeros_def)

lemma shape_np_zeros: "shape (np_zeros shp) = shp"
  by (simp add: np_zeros_def)

lemma load_batch_x_unflattened:
  fixes to_float64 :: "'a \<Rightarrow> 'b::zero"
  assumes "path_batch \<noteq> []"
    and "map fs path_batch = map Some utterances"
    and "\<forall>utt \<in> set utterances. valid utt \<and> shape utt \<noteq> []"
    and "\<forall>utt \<in> set utterances. tl (shape utt) = tl (shape (hd utterances))"
  shows "\<exists>batch. load_batch_x to_float64 fs path_batch False time_major
                    = Inr (batch, map (\<lambda>u. hd (shape u)) utterances)
           \<and> valid batch
           \<and> shape batch = length path_batch # Max (set (map (\<lambda>u. hd (shape u)) utterances))
                              # tl (shape (hd utterances))"
proof -
  let ?lens = "map (\<lambda>u. hd (shape u)) utterances"
  let ?rest = "tl (shape (hd utterances))"
  have len: "length utterances = length path_batch"
    using assms(2) by (metis length_map)
  with assms(1) obtain u0 others where us: "utterances = u0 # others"
    by (cases utterances) auto
  have load: "comprehension (np_load fs) path_batch = Inr utterances"
    by (rule comprehension_load[OF assms(2)])
  have lens: "comprehension shape0 utterances = Inr ?lens"
    using assms(3) by (intro comprehension_shape0_ok) simp
  define max_len where "max_len = Max (set ?lens)"
  have mx: "py_max ?lens = Inr max_len"
    using Max.set_eq_fold[of "hd (shape u0)" "map (\<lambda>u. hd (shape u)) others"]
    by (simp add: py_max_def us max_len_def)
  have each: "\<forall>utt \<in> set utterances. valid utt \<and> (\<exists>n. shape utt = n # ?rest \<and> n \<le> max_len)"
  proof
    fix utt assume in_set: "utt \<in> set utterances"
    with assms(3,4) have v: "valid utt" and ne: "shape utt \<noteq> []" and tl: "tl (shape utt) = ?rest"
      by simp_all
    from ne tl have shp: "shape utt = hd (shape utt) # ?rest" by (cases "shape utt") simp_all
    from in_set have "hd (shape utt) \<in> set ?lens" by simp
    with py_max_ge[OF mx] have "hd (shape utt) \<le> max_len" by blast
    with v shp show "valid utt \<and> (\<exists>n. shape utt = n # ?rest \<and> n \<le> max_len)" by blast
  qed
  have "\<exists>batch. fill_batch to_float64 (np_zeros (length path_batch # max_len # ?rest)) 0 utterances max_len
                  = Inr batch \<and> valid batch
                \<and> shape batch = shape (np_zeros (length path_batch # max_len # ?rest) :: 'b ndarray)"
    using each len by (intro fill_batch_ok[where N = "length path_batch" and rest = "?rest"])
      (simp_all add: valid_np_zeros shape_np_zeros)
  then obtain batch where
    "fill_batch to_float64 (np_zeros (length path_batch # max_len # ?rest)) 0 utterances max_len = Inr batch"
    "valid batch" "shape batch = length path_batch # max_len # ?rest"
    by (auto simp: shape_np_zeros)
  with load lens mx show ?thesis
    by (simp add: load_batch_x_def py_index_def us max_len_def)
qed

lemma load_batch_x_lens:
  assumes "map fs path_batch = map Some utterances"
    and "load_batch_x to_float64 fs path_batch flatten time_major = Inr (batch, lens)"
  shows "lens = map (\<lambda>u. hd (shape u)) utterances"
proof -
  have load: "comprehension (np_load fs) path_batch = Inr utterances"
    by (rule comprehension_load[OF assms(1)])
  from assms(2) obtain utter_lens where
    "comprehension shape0 utterances = Inr utter_lens" "lens = utter_lens"
    unfolding load_batch_x_def load
    by (auto split: sum.splits if_splits)
  with comprehension_shape0 show ?thesis by blast
qed


section \<open>Properties of \<^verbatim>\<open>collapse\<close>\<close>

lemma concat_double_index:
  "concat (map (\<lambda>i. concat (map (\<lambda>j. g (i * C + j)) [0..<C])) [0..<T])
     = concat (map g [0..<T * C])"
proof (induction T)
  case 0
  then show ?case by simp
next
  case (Suc T)
  have "[0..<T * C + C] = [0..<T * C] @ [T * C..<T * C + C]"
    by (rule upt_add_eq_append) simp
  moreover have "map g [T * C..<T * C + C] = map (\<lambda>j. g (T * C + j)) [0..<C]"
    by (intro nth_equalityI) simp_all
  ultimately show ?case
    using Suc by (simp add: add.commute)
qed

lemma sum_list_const:
  assumes "\<forall>x \<in> set xs. f x = (m::nat)"
  shows "sum_list (map f xs) = length xs * m"
  using assms by (induction xs) simp_all

lemma np_concatenate_axis1_uniform:
  assumes "arrays \<noteq> []" and "\<forall>x \<in> set arrays. shape x = p # m # rest"
  shows "np_concatenate_axis1 arrays =
           Inr \<lparr>shape = p # (length arrays * m) # rest,
                data = concat (map (\<lambda>i. concat (map (\<lambda>x. data (item x i)) arrays)) [0..<p])\<rparr>"
proof -
  from assms(1) obtain a others where arr: "arrays = a # others" by (cases arrays) auto
  have "sum_list (map (\<lambda>x. shape x ! 1) arrays) = length arrays * m"
    using assms(2) by (intro sum_list_const) simp
  moreover have "list_all (\<lambda>x. length (shape x) = length (shape a) \<and> hd (shape x) = p
                                 \<and> drop 2 (shape x) = rest) others"
    using assms(2) by (simp add: arr list_all_iff)
  moreover have "shape a = p # m # rest" using assms(2) by (simp add: arr)
  ultimately show ?thesis
    unfolding np_concatenate_axis1_def arr by simp
qed

lemma collapse_utterance:
  assumes "valid u" and "shape u = [T, C, F]" and "0 < C"
  shows "\<exists>swapped slices.
           np_swapaxes01 u = Inr swapped \<and> iter_rows swapped = Inr slices
           \<and> np_concatenate_axis1 slices = Inr \<lparr>shape = [T, C * F], data = data u\<rparr>"
proof -
  define piece where "piece k = chunk F k (data u)" for k
  define swapped where
    "swapped = \<lparr>shape = [C, T, F],
                data = concat (map (\<lambda>j. concat (map (\<lambda>i. piece (i * C + j)) [0..<T])) [0..<C])\<rparr>"
  define slices where "slices = map (item swapped) [0..<C]"
  have len: "length (data u) = (T * C) * F"
    using assms(1,2) by (simp add: valid_def)
  have piece_len: "length (piece k) = F" if "k < T * C" for k
    unfolding piece_def using len that by (rule length_chunk)
  have in_range: "i * C + j < T * C" if "i < T" "j < C" for i j
  proof -
    have "i * C + j < i * C + C" using that(2) by simp
    also have "\<dots> = Suc i * C" by simp
    also have "\<dots> \<le> T * C" using that(1) by (intro mult_le_mono1) simp
    finally show ?thesis .
  qed
  have sw: "np_swapaxes01 u = Inr swapped"
    by (simp add: np_swapaxes01_def assms(2) swapped_def piece_def)
  have it: "iter_rows swapped = Inr slices"
    by (simp add: iter_rows_def swapped_def slices_def)
  have col_len: "length (concat (map (\<lambda>i. piece (i * C + j)) [0..<T])) = T * F" if "j < C" for j
    using that by (intro length_concat_equal piece_len in_range)
  have slice_data: "data (item swapped j) = concat (map (\<lambda>i. piece (i * C + j)) [0..<T])"
    if "j < C" for j
  proof -
    have "chunk (T * F) j (concat (map (\<lambda>j. concat (map (\<lambda>i. piece (i * C + j)) [0..<T])) [0..<C]))
          = concat (map (\<lambda>i. piece (i * C + j)) [0..<T])"
      using col_len that by (intro chunk_concat) simp_all
    then show ?thesis by (simp add: item_def swapped_def)
  qed
  have slice_shape: "shape (item swapped j) = [T, F]" for j
    by (simp add: item_def swapped_def)
  have sub: "data (item (item swapped j) i) = piece (i * C + j)" if "i < T" "j < C" for i j
  proof -
    have "chunk F i (concat (map (\<lambda>i. piece (i * C + j)) [0..<T])) = piece (i * C + j)"
      using that by (intro chunk_concat piece_len in_range) simp_all
    then show ?thesis
      using that(2) by (simp add: item_def[of "item swapped j"] slice_shape slice_data)
  qed
  have ne: "slices \<noteq> []" using assms(3) by (simp add: slices_def)
  have shapes: "\<forall>x \<in> set slices. shape x = T # F # []"
    by (auto simp: slices_def slice_shape)
  have rows: "concat (map (\<lambda>x. data (item x i)) slices) = concat (map (\<lambda>j. piece (i * C + j)) [0..<C])"
    if "i < T" for i
  proof -
    have "map (\<lambda>x. data (item x i)) slices = map (\<lambda>j. piece (i * C + j)) [0..<C]"
      using that by (simp add: slices_def sub)
    then show ?thesis by simp
  qed
  have "map (\<lambda>i. concat (map (\<lambda>x. data (item x i)) slices)) [0..<T]
        = map (\<lambda>i. concat (map (\<lambda>j. piece (i * C + j)) [0..<C])) [0..<T]"
    using rows by simp
  then have "concat (map (\<lambda>i. concat (map (\<lambda>x. data (item x i)) slices)) [0..<T])
        = concat (map (\<lambda>i. concat (map (\<lambda>j. piece (i * C + j)) [0..<C])) [0..<T])"
    by (rule arg_cong)
  also have "\<dots> = concat (map piece [0..<T * C])"
    by (rule concat_double_index)
  also have "\<dots> = data u"
    unfolding piece_def using len by (intro concat_chunks)
  finally have dat: "concat (map (\<lambda>i. concat (map (\<lambda>x. data (item x i)) slices)) [0..<T]) = data u" .
  have "np_concatenate_axis1 slices = Inr \<lparr>shape = [T, C * F], data = data u\<rparr>"
    using np_concatenate_axis1_uniform[OF ne shapes] dat by (simp add: slices_def)
  with sw it show ?thesis by blast
qed

lemma collapse_loop_uniform:
  assumes "\<forall>u \<in> set utterances. valid u \<and> shape u = [T, C, F]" and "0 < C"
  shows "collapse_loop utterances new_batch_x =
           Inr (new_batch_x @ map (\<lambda>u. \<lparr>shape = [T, C * F], data = data u\<rparr>) utterances)"
  using assms(1)
proof (induction utterances arbitrary: new_batch_x)
  case Nil
  then show ?case by simp
next
  case (Cons u rest)
  then have "valid u" "shape u = [T, C, F]" by simp_all
  from collapse_utterance[OF this assms(2)] obtain swapped slices where
    "np_swapaxes01 u = Inr swapped" "iter_rows swapped = Inr slices"
    "np_concatenate_axis1 slices = Inr \<lparr>shape = [T, C * F], data = data u\<rparr>"
    by blast
  with Cons show ?case by simp
qed

lemma collapse_result:
  assumes "valid batch_x" and "shape batch_x = [N, T, C, F]" and "0 < N" and "0 < C"
  shows "collapse batch_x time_major =
           (if time_major then np_transpose102 \<lparr>shape = [N, T, C * F], data = data batch_x\<rparr>
            else Inr \<lparr>shape = [N, T, C * F], data = data batch_x\<rparr>)"
proof -
  let ?R = "T * (C * F)"
  define utterances where "utterances = map (item batch_x) [0..<N]"
  have len: "length (data batch_x) = N * ?R"
    using assms(1,2) by (simp add: valid_def)
  have it: "iter_rows batch_x = Inr utterances"
    by (simp add: iter_rows_def assms(2) utterances_def)
  have utt: "\<forall>u \<in> set utterances. valid u \<and> shape u = [T, C, F]"
  proof
    fix u assume "u \<in> set utterances"
    then obtain n where n: "n < N" "u = item batch_x n" by (auto simp: utterances_def)
    have "length (chunk ?R n (data batch_x)) = ?R"
      using len n(1) by (rule length_chunk)
    then show "valid u \<and> shape u = [T, C, F]"
      by (simp add: n(2) item_def assms(2) valid_def)
  qed
  have loop: "collapse_loop utterances [] =
                Inr (map (\<lambda>u. \<lparr>shape = [T, C * F], data = data u\<rparr>) utterances)"
    using collapse_loop_uniform[OF utt assms(4), of "[]"] by simp
  have dat: "concat (map data utterances) = data batch_x"
  proof -
    have "map data utterances = map (\<lambda>n. chunk ?R n (data batch_x)) [0..<N]"
      by (simp add: utterances_def item_def assms(2))
    then show ?thesis using len by (simp add: concat_chunks)
  qed
  from assms(3) obtain u0 others where us: "utterances = u0 # others"
    by (cases utterances) (auto simp: utterances_def)
  have n: "length utterances = N" by (simp add: utterances_def)
  have "np_array (map (\<lambda>u. \<lparr>shape = [T, C * F], data = data u\<rparr>) utterances)
        = Inr \<lparr>shape = [N, T, C * F], data = concat (map data utterances)\<rparr>"
    using n by (simp add: np_array_def us list_all_iff comp_def)
  with it loop dat show ?thesis
    by (simp add: collapse_def)
qed


text \<open>
  Claim C5, as stated, at a batch of shape \<open>(N, C, T, F) = (1, 1, 2, 1)\<close>: the claim
  gives the result the shape \<open>(N, T, C*F) = (1, 2, 1)\<close>, but \<^verbatim>\<open>collapse\<close> returns an
  array of shape \<open>(1, 1, 2)\<close>: it keeps the second axis and merges the third into the
  last.
\<close>

theorem collapse_claimed_axes:
  "valid \<lparr>shape = [1, 1, 2, 1], data = [7, 8 :: int]\<rparr>
   \<and> collapse \<lparr>shape = [1, 1, 2, 1], data = [7, 8 :: int]\<rparr> False
       = Inr \<lparr>shape = [1, 1, 2], data = [7, 8]\<rparr>
   \<and> [1, 1, 2] \<noteq> [1, 2, 1 * (1 :: nat)]"
  by (simp add: valid_def collapse_def iter_rows_def item_def chunk_def np_swapaxes01_def
      np_concatenate_axis1_def np_array_def numeral_2_eq_2)

text \<open>
  Claim C5, amended to the axis order the batch loader produces: for a batch of shape
  \<open>(N, T, C, F)\<close> with at least one element and at least one channel, \<^verbatim>\<open>collapse\<close>
  (not time-major) returns an array of shape \<open>(N, T, C*F)\<close> in which, for each element
  and each time step, the \<open>C\<close> channel rows follow one another along the last axis:
  the entry \<open>[n, t, c*F + f]\<close> of the result is the entry \<open>[n, t, c, f]\<close> of the batch.
\<close>

theorem collapse_merges_channels:
  assumes "valid batch_x" and "shape batch_x = [N, T, C, F]" and "0 < N" and "0 < C"
  shows "\<exists>result. collapse batch_x False = Inr result
           \<and> shape result = [N, T, C * F]
           \<and> (\<forall>n < N. \<forall>t < T. \<forall>c < C. \<forall>f < F.
                 element result [n, t, c * F + f] = element batch_x [n, t, c, f])"
proof -
  have "((n * T + t) * C + c) * F + f = (n * T + t) * (C * F) + (c * F + f)" for n t c f :: nat
    by (simp add: algebra_simps)
  then show ?thesis
    using collapse_result[OF assms, of False]
    by (simp add: element_def ravel_index_def assms(2) add.assoc)
qed


text \<open>
  Claim C5, the amended theorem at a batch of one element with two time steps, three
  channels and two features.
\<close>

theorem collapse_merges_channels_witness:
  "collapse \<lparr>shape = [1, 2, 3, 2], data = [1, 2, 3, 4, 5, 6, 7, 8, 9, 10, 11, 12 :: int]\<rparr> False
     = Inr \<lparr>shape = [1, 2, 6], data = [1, 2, 3, 4, 5, 6, 7, 8, 9, 10, 11, 12]\<rparr>
   \<and> element \<lparr>shape = [1, 2, 6], data = [1, 2, 3, 4, 5, 6, 7, 8, 9, 10, 11, 12 :: int]\<rparr> [0, 1, 5]
       = element \<lparr>shape = [1, 2, 3, 2], data = [1, 2, 3, 4, 5, 6, 7, 8, 9, 10, 11, 12 :: int]\<rparr>
           [0, 1, 2, 1]"
proof -
  let ?b = "\<lparr>shape = [1, 2, 3, 2], data = [1, 2, 3, 4, 5, 6, 7, 8, 9, 10, 11, 12 :: int]\<rparr>"
  have v: "valid ?b" "shape ?b = [1, 2, 3, 2]" "0 < (1::nat)" "0 < (3::nat)"
    by (simp_all add: valid_def)
  from collapse_merges_channels[OF v] obtain result where
    r: "collapse ?b False = Inr result" "shape result = [1, 2, 3 * 2]"
       "\<forall>n < 1. \<forall>t < 2. \<forall>c < 3. \<forall>f < 2.
           element result [n, t, c * 2 + f] = element ?b [n, t, c, f]"
    by blast
  have el: "element result [0, 1, 2 * 2 + 1] = element ?b [0, 1, 2, 1]"
    using r(3)[rule_format, of 0 1 2 1] by simp
  have "collapse ?b False = Inr \<lparr>shape = [1, 2, 6], data = data ?b\<rparr>"
    using collapse_result[OF v, of False] by simp
  with r(1) el show ?thesis by simp
qed

section \<open>The collapse step and the time-major flag of \<^verbatim>\<open>load_batch_x\<close>\<close>

text \<open>
  With the collapse step \<^verbatim>\<open>load_batch_x\<close> returns for arrays of shape \<open>(n, C, F)\<close> with at
  least one channel, and a time-major request is honoured: the batch then comes out
  with the time axis first.
\<close>

lemma load_batch_x_flattened:
  fixes to_float64 :: "'a \<Rightarrow> 'b::zero"
  assumes "path_batch \<noteq> []"
    and "map fs path_batch = map Some utterances"
    and "\<forall>utt \<in> set utterances. valid utt \<and> (\<exists>n. shape utt = [n, C, F])"
    and "0 < C"
  shows "\<exists>batch. load_batch_x to_float64 fs path_batch True time_major
                    = Inr (batch, map (\<lambda>u. hd (shape u)) utterances)
           \<and> shape batch
               = (if time_major
                  then [Max (set (map (\<lambda>u. hd (shape u)) utterances)), length path_batch, C * F]
                  else [length path_batch, Max (set (map (\<lambda>u. hd (shape u)) utterances)), C * F])"
proof -
  let ?lens = "map (\<lambda>u. hd (shape u)) utterances"
  have len: "length utterances = length path_batch"
    using assms(2) by (metis length_map)
  with assms(1) obtain u0 others where us: "utterances = u0 # others"
    by (cases utterances) auto
  have rest: "tl (shape (hd utterances)) = [C, F]"
    using assms(3) by (auto simp: us)
  have a3: "\<forall>utt \<in> set utterances. valid utt \<and> shape utt \<noteq> []"
    using assms(3) by auto
  have a4: "\<forall>utt \<in> set utterances. tl (shape utt) = tl (shape (hd utterances))"
    using assms(3) rest by auto
  from load_batch_x_unflattened[OF assms(1,2) a3 a4, of to_float64 False] obtain batch where
    b: "load_batch_x to_float64 fs path_batch False False = Inr (batch, ?lens)" "valid batch"
       "shape batch = [length path_batch, Max (set ?lens), C, F]"
    by (auto simp: rest)
  have N: "0 < length path_batch" using assms(1) by simp
  let ?merged = "\<lparr>shape = [length path_batch, Max (set ?lens), C * F], data = data batch\<rparr>"
  have col: "collapse batch time_major
             = (if time_major then np_transpose102 ?merged else Inr ?merged)"
    by (rule collapse_result[OF b(2,3) N assms(4)])
  have "\<exists>r. np_transpose102 ?merged = Inr r
             \<and> shape r = [Max (set ?lens), length path_batch, C * F]"
    by (simp add: np_transpose102_def np_swapaxes01_def)
  with col obtain r where
    r: "collapse batch time_major = Inr r"
       "shape r = (if time_major then [Max (set ?lens), length path_batch, C * F]
                   else [length path_batch, Max (set ?lens), C * F])"
    by (cases time_major) auto
  from b(1) have "load_batch_x to_float64 fs path_batch True time_major = Inr (r, ?lens)"
    unfolding load_batch_x_def using r(1)
    by (auto split: sum.splits)
  with r(2) show ?thesis by blast
qed

text \<open>
  Claim C3: for a non-empty list of paths whose files hold arrays of at least one
  dimension that agree in their trailing dimensions, whatever \<^verbatim>\<open>load_batch_x\<close>
  returns, the lengths array has one entry per path, in the order of the paths, the
  \<open>i\<close>-th being the first dimension of the \<open>i\<close>-th loaded array. Without the collapse
  step it does return that array, and with the collapse step it returns it too when the
  arrays have the shape \<open>(n, C, F)\<close> with at least one channel, time-major or not.
\<close>

theorem load_batch_x_lengths:
  fixes to_float64 :: "'a \<Rightarrow> 'b::zero"
  assumes "path_batch \<noteq> []"
    and "map fs path_batch = map Some utterances"
    and "\<forall>utt \<in> set utterances. valid utt \<and> shape utt \<noteq> []"
    and "\<forall>utt \<in> set utterances. tl (shape utt) = tl (shape (hd utterances))"
  shows "(\<forall>batch lens. load_batch_x to_float64 fs path_batch flatten time_major = Inr (batch, lens)
            \<longrightarrow> length lens = length path_batch
              \<and> (\<forall>i < length path_batch. lens ! i = hd (shape (utterances ! i))))
       \<and> (\<exists>batch. load_batch_x to_float64 fs path_batch False time_major
                     = Inr (batch, map (\<lambda>u. hd (shape u)) utterances))
       \<and> (\<forall>C F. 0 < C \<and> tl (shape (hd utterances)) = [C, F]
            \<longrightarrow> (\<exists>batch. load_batch_x to_float64 fs path_batch True time_major
                          = Inr (batch, map (\<lambda>u. hd (shape u)) utterances)))"
proof -
  have len: "length utterances = length path_batch"
    using assms(2) by (metis length_map)
  have "length lens = length path_batch
        \<and> (\<forall>i < length path_batch. lens ! i = hd (shape (utterances ! i)))"
    if "load_batch_x to_float64 fs path_batch flatten time_major = Inr (batch, lens)" for batch lens
    using load_batch_x_lens[OF assms(2) that] len by simp
  moreover have "\<exists>batch. load_batch_x to_float64 fs path_batch False time_major
                     = Inr (batch, map (\<lambda>u. hd (shape u)) utterances)"
    using load_batch_x_unflattened[OF assms, of to_float64] by blast
  moreover have "\<exists>batch. load_batch_x to_float64 fs path_batch True time_major
                          = Inr (batch, map (\<lambda>u. hd (shape u)) utterances)"
    if "0 < C" "tl (shape (hd utterances)) = [C, F]" for C F
  proof -
    have "\<forall>utt \<in> set utterances. valid utt \<and> (\<exists>n. shape utt = [n, C, F])"
    proof
      fix utt assume u: "utt \<in> set utterances"
      with assms(3,4) that(2) have "valid utt" "shape utt \<noteq> []" "tl (shape utt) = [C, F]"
        by simp_all
      then show "valid utt \<and> (\<exists>n. shape utt = [n, C, F])"
        by (cases "shape utt") simp_all
    qed
    from load_batch_x_flattened[OF assms(1,2) this that(1), of to_float64 time_major]
    show ?thesis by blast
  qed
  ultimately show ?thesis by blast
qed

text \<open>
  Claim C3 at two files holding \<^verbatim>\<open>float64\<close> arrays of shapes \<open>(1, 1, 2)\<close> and
  \<open>(2, 1, 2)\<close>: the lengths are \<open>[1, 2]\<close>, one per path, without the collapse step and
  with it.
\<close>

theorem load_batch_x_lengths_witness:
  "load_batch_x (\<lambda>x. x) [''a.npy'' \<mapsto> \<lparr>shape = [1, 1, 2], data = [1, 2 :: rat]\<rparr>,
                 ''b.npy'' \<mapsto> \<lparr>shape = [2, 1, 2], data = [3, 4, 5, 6]\<rparr>]
       [''a.npy'', ''b.npy''] False False
     = Inr (\<lparr>shape = [2, 2, 1, 2], data = [1, 2, 0, 0, 3, 4, 5, 6]\<rparr>, [1, 2])
   \<and> load_batch_x (\<lambda>x. x) [''a.npy'' \<mapsto> \<lparr>shape = [1, 1, 2], data = [1, 2 :: rat]\<rparr>,
                 ''b.npy'' \<mapsto> \<lparr>shape = [2, 1, 2], data = [3, 4, 5, 6]\<rparr>]
       [''a.npy'', ''b.npy''] True False
     = Inr (\<lparr>shape = [2, 2, 2], data = [1, 2, 0, 0, 3, 4, 5, 6]\<rparr>, [1, 2])
   \<and> length [1, 2 :: nat] = length [''a.npy'', ''b.npy'']"
proof -
  let ?a = "\<lparr>shape = [1, 1, 2], data = [1, 2 :: rat]\<rparr>"
  let ?b = "\<lparr>shape = [2, 1, 2], data = [3, 4, 5, 6 :: rat]\<rparr>"
  let ?fs = "[''a.npy'' \<mapsto> ?a, ''b.npy'' \<mapsto> ?b]"
  let ?batch = "\<lparr>shape = [2, 2, 1, 2], data = [1, 2, 0, 0, 3, 4, 5, 6 :: rat]\<rparr>"
  have run: "load_batch_x (\<lambda>x. x) ?fs [''a.npy'', ''b.npy''] False False = Inr (?batch, [1, 2])"
    by (simp add: load_batch_x_def np_load_def shape0_def py_max_def py_index_def np_zeros_def
        zero_pad_def set_prefix_def set_item_def broadcast_to_def chunk_def astype_def
        numeral_2_eq_2)
  have "collapse ?batch False = Inr \<lparr>shape = [2, 2, 1 * 2], data = data ?batch\<rparr>"
    using collapse_result[of ?batch 2 2 1 2 False] by (simp add: valid_def)
  with run have flat: "load_batch_x (\<lambda>x. x) ?fs [''a.npy'', ''b.npy''] True False
         = Inr (\<lparr>shape = [2, 2, 2], data = [1, 2, 0, 0, 3, 4, 5, 6]\<rparr>, [1, 2])"
    unfolding load_batch_x_def by (auto split: sum.splits if_splits)
  have h: "[''a.npy'', ''b.npy''] \<noteq> []"
    "map ?fs [''a.npy'', ''b.npy''] = map Some [?a, ?b]"
    "\<forall>utt \<in> set [?a, ?b]. valid utt \<and> shape utt \<noteq> []"
    "\<forall>utt \<in> set [?a, ?b]. tl (shape utt) = tl (shape (hd [?a, ?b]))"
    by (simp_all add: valid_def)
  from load_batch_x_lengths[OF h, of "\<lambda>x. x" False False] run
  have "length [1, 2 :: nat] = length [''a.npy'', ''b.npy'']"
    by blast
  with run flat show ?thesis by blast
qed

text \<open>
  Claim C6 at one file holding a \<^verbatim>\<open>float64\<close> array of shape \<open>(2, 1)\<close>, time-major
  requested and no collapse: \<^verbatim>\<open>load_batch_x\<close> passes \<^verbatim>\<open>time_major\<close> on to \<^verbatim>\<open>collapse\<close>
  only, so the batch keeps the shape \<open>(1, 2, 1)\<close> with the batch axis before the time
  axis, where the claim has \<open>(2, 1, 1)\<close>.
\<close>

theorem load_batch_x_time_major_ignored:
  "load_batch_x (\<lambda>x. x) [''a.npy'' \<mapsto> \<lparr>shape = [2, 1], data = [1, 2 :: rat]\<rparr>] [''a.npy'']
       False True
     = Inr (\<lparr>shape = [1, 2, 1], data = [1, 2]\<rparr>, [2])"
  by (simp add: load_batch_x_def np_load_def shape0_def py_max_def py_index_def np_zeros_def
      zero_pad_def set_prefix_def set_item_def broadcast_to_def chunk_def astype_def
      numeral_2_eq_2)

section \<open>Properties of \<^verbatim>\<open>get_prefixes\<close>\<close>

lemma py_split_nonempty: "py_split sep s \<noteq> []"
  by (induction s) (auto split: list.splits)

lemma hd_py_split: "hd (py_split sep s) = takeWhile (\<lambda>c. c \<noteq> sep) s"
proof (induction s)
  case Nil
  then show ?case by simp
next
  case (Cons c cs)
  then show ?case
    using py_split_nonempty[of sep cs] by (auto split: list.splits)
qed

lemma filenames_loop_eq:
  "filenames_loop extension root_dir filenames prefixes
     = prefixes @ map (example_id root_dir)
                    (filter (\<lambda>filename. py_endswith filename extension) filenames)"
  by (induction filenames arbitrary: prefixes) (simp_all add: example_id_def hd_py_split)

lemma walk_loop_eq:
  "walk_loop extension walk prefixes
     = prefixes @ map (\<lambda>(root_dir, filename). example_id root_dir filename)
                    (matching_files extension walk)"
proof (induction walk arbitrary: prefixes)
  case Nil
  then show ?case by (simp add: matching_files_def)
next
  case (Cons entry rest)
  obtain root_dir dirnames filenames where e: "entry = (root_dir, dirnames, filenames)"
    by (cases entry) auto
  have "matching_files extension (entry # rest)
        = map (\<lambda>filename. (root_dir, filename))
              (filter (\<lambda>filename. py_endswith filename extension) filenames)
          @ matching_files extension rest"
    by (simp add: matching_files_def e)
  then show ?case
    by (simp add: e Cons filenames_loop_eq comp_def)
qed


text \<open>
  Claim C9, as stated, at a directory with the two files \<^verbatim>\<open>a.x.npy\<close> and
  \<^verbatim>\<open>a.y.npy\<close>: both have the extension and the same part before the first period,
  and the identifier \<^verbatim>\<open>d/a\<close> is returned twice.
\<close>

theorem get_prefixes_duplicate:
  "distinct [''a.x.npy'', ''a.y.npy'']
   \<and> get_prefixes (Dir [''a.x.npy'', ''a.y.npy''] []) ''d'' ''.npy'' = [''d/a'', ''d/a'']
   \<and> \<not> distinct (get_prefixes (Dir [''a.x.npy'', ''a.y.npy''] []) ''d'' ''.npy'')"
  by (simp add: get_prefixes_def py_endswith_def os_path_join_def py_startswith_def)


text \<open>
  Claim C9, amended: \<^verbatim>\<open>get_prefixes\<close> returns the sorted list of the identifiers of
  the files with the extension, one entry per such file (so an identifier shared by two
  files appears twice); each identifier is the containing directory joined with the part
  of the file name before its first period.
\<close>

theorem get_prefixes_sorted_per_file:
  "get_prefixes tree dirname extension
     = sort (map (\<lambda>(root_dir, filename). example_id root_dir filename)
               (matching_files extension (os_walk dirname tree)))
   \<and> sorted (get_prefixes tree dirname extension)
   \<and> mset (get_prefixes tree dirname extension)
       = mset (map (\<lambda>(root_dir, filename). example_id root_dir filename)
                 (matching_files extension (os_walk dirname tree)))
   \<and> length (get_prefixes tree dirname extension)
       = length (matching_files extension (os_walk dirname tree))"
proof -
  let ?ids = "map (\<lambda>(root_dir, filename). example_id root_dir filename)
                (matching_files extension (os_walk dirname tree))"
  have loops: "walk_loop extension (os_walk dirname tree) [] = ?ids"
    by (simp add: walk_loop_eq)
  then have eq: "get_prefixes tree dirname extension = sort ?ids"
    by (simp add: get_prefixes_def)
  have "sorted (sort ?ids)"
    by (rule sorted_sort)
  moreover have "mset (sort ?ids) = mset ?ids"
    by (rule mset_sort)
  moreover have "length (sort ?ids) = length (matching_files extension (os_walk dirname tree))"
    by simp
  ultimately show ?thesis
    unfolding eq by blast
qed


text \<open>
  Claim C9, the amended theorem at a directory with one matching file, one other file
  and a sub-directory with one matching file.
\<close>

theorem get_prefixes_sorted_per_file_witness:
  "get_prefixes (Dir [''b.npy'', ''notes.txt''] [(''sub'', Dir [''a.feat.npy''] [])]) ''d'' ''.npy''
     = [''d/b'', ''d/sub/a'']"
proof -
  have "matching_files ''.npy''
          (os_walk ''d'' (Dir [''b.npy'', ''notes.txt''] [(''sub'', Dir [''a.feat.npy''] [])]))
        = [(''d'', ''b.npy''), (''d/sub'', ''a.feat.npy'')]"
    by (simp add: matching_files_def py_endswith_def os_path_join_def py_startswith_def)
  moreover have "sort [''d/b'', ''d/sub/a''] = [''d/b'', ''d/sub/a'']"
    by (simp add: less_eq_char_def less_char_def)
  ultimately show ?thesis
    using get_prefixes_sorted_per_file[of
        "Dir [''b.npy'', ''notes.txt''] [(''sub'', Dir [''a.feat.npy''] [])]" "''d''" "''.npy''"]
    by (simp add: example_id_def os_path_join_def py_startswith_def py_endswith_def)
qed

end
